theory Spec2Isabelle
  imports Main
begin

unbundle bit_operations_syntax

section \<open>Python values and errors\<close>

text \<open>
  Python integers are unbounded: they are \<open>int\<close>. Bit-widths, row and column indices and
  retry budgets are counts and are \<open>nat\<close> (negative arguments are outside this model).
  An exception raised by the source is a value \<open>Inl e\<close> of the result.
\<close>

datatype py_error = ValueError | IndexError

section \<open>Bit conversions\<close>

text \<open>\<^verbatim>\<open>[(x >> i) & 1 for i in reversed(range(n))]\<close>\<close>

definition int_to_bits :: "int \<Rightarrow> nat \<Rightarrow> int list" where
  "int_to_bits x n = map (\<lambda>i. drop_bit i x AND 1) (rev [0..<n])"

text \<open>\<^verbatim>\<open>x = 0; for b in bits: x = (x << 1) | (int(b) & 1)\<close>\<close>

definition bits_to_int :: "int list \<Rightarrow> int" where
  "bits_to_int bits = fold (\<lambda>b x. push_bit 1 x OR (b AND 1)) bits 0"

section \<open>The classical Simon function\<close>

text \<open>
  The loop state of \<open>build_simon_function\<close>: the list \<open>seen\<close>, the dictionary \<open>mapping\<close>
  and the counter \<open>next_output\<close>. The unused local \<open>s_bits\<close> is left out.
  \<open>seen[x]\<close> is always in range (\<open>x\<close> runs over \<open>range(N)\<close>); \<open>seen[y] = True\<close> raises
  IndexError when \<open>y = x ^ s_int\<close> is not below \<open>N\<close>.
\<close>

type_synonym simon_state = "bool list \<times> (nat \<rightharpoonup> nat) \<times> nat"

definition simon_step :: "nat \<Rightarrow> nat \<Rightarrow> simon_state \<Rightarrow> py_error + simon_state" where
  "simon_step s_int x st =
     (case st of (seen, mapping, next_output) \<Rightarrow>
        if seen ! x then Inr st
        else let y = x XOR s_int in
          if y = x then Inr (seen[x := True], mapping(x \<mapsto> next_output), next_output + 1)
          else if \<not> y < length seen then Inl IndexError
          else Inr (seen[x := True, y := True],
                    mapping(x \<mapsto> next_output, y \<mapsto> next_output), next_output + 1))"

fun simon_loop :: "nat \<Rightarrow> nat list \<Rightarrow> simon_state \<Rightarrow> py_error + simon_state" where
  "simon_loop s_int [] st = Inr st"
| "simon_loop s_int (x # xs) st =
     (case simon_step s_int x st of
        Inl e \<Rightarrow> Inl e
      | Inr st' \<Rightarrow> simon_loop s_int xs st')"

definition build_simon_function :: "nat \<Rightarrow> nat \<Rightarrow> py_error + (nat \<rightharpoonup> nat)" where
  "build_simon_function n s_int =
     (let N = push_bit n (1::nat) in
      case simon_loop s_int [0..<N] (replicate N False, Map.empty, 0) of
        Inl e \<Rightarrow> Inl e
      | Inr (seen, mapping, next_output) \<Rightarrow> Inr mapping)"

section \<open>Measurement strings as integer matrices\<close>

text \<open>
  \<open>int(ch)\<close> of a one-character string: the digit's value, ValueError for any other
  (ASCII) character.
\<close>

definition is_digit :: "char \<Rightarrow> bool" where
  "is_digit ch = (48 \<le> (of_char ch :: nat) \<and> (of_char ch :: nat) \<le> 57)"

definition digit_val :: "char \<Rightarrow> int" where
  "digit_val ch = int (of_char ch) - 48"

text \<open>\<^verbatim>\<open>[int(ch) for ch in b]\<close>\<close>

definition parse_row :: "string \<Rightarrow> py_error + int list" where
  "parse_row b = (if list_all is_digit b then Inr (map digit_val b) else Inl ValueError)"

fun parse_rows :: "string list \<Rightarrow> py_error + int list list" where
  "parse_rows [] = Inr []"
| "parse_rows (b # bs) =
     (case parse_row b of
        Inl e \<Rightarrow> Inl e
      | Inr row \<Rightarrow> (case parse_rows bs of Inl e \<Rightarrow> Inl e | Inr rows \<Rightarrow> Inr (row # rows)))"

text \<open>
  \<open>np.array(rows, dtype=int)\<close>: rows of different lengths raise ValueError. The array is
  the list of its rows; \<open>ncols\<close> is the second component of its shape.
\<close>

definition np_array :: "int list list \<Rightarrow> py_error + int list list" where
  "np_array rows =
     (if \<forall>row \<in> set rows. length row = length (hd rows) then Inr rows else Inl ValueError)"

definition ncols :: "int list list \<Rightarrow> nat" where
  "ncols A = (case A of [] \<Rightarrow> 0 | row # _ \<Rightarrow> length row)"

text \<open>\<open>A[row, col]\<close> and \<open>row[j]\<close>: IndexError outside the array.\<close>

definition getitem :: "int list \<Rightarrow> nat \<Rightarrow> py_error + int" where
  "getitem row j = (if j < length row then Inr (row ! j) else Inl IndexError)"

definition cell :: "int list list \<Rightarrow> nat \<Rightarrow> nat \<Rightarrow> py_error + int" where
  "cell A row col = (if row < length A then getitem (A ! row) col else Inl IndexError)"

section \<open>Forward elimination over GF(2)\<close>

text \<open>
  \<^verbatim>\<open>for row in range(rank, r): if A[row, col] == 1: pivot = row; break\<close>
\<close>

fun find_pivot :: "int list list \<Rightarrow> nat \<Rightarrow> nat list \<Rightarrow> py_error + nat option" where
  "find_pivot A col [] = Inr None"
| "find_pivot A col (row # rows) =
     (case cell A row col of
        Inl e \<Rightarrow> Inl e
      | Inr v \<Rightarrow> if v = 1 then Inr (Some row) else find_pivot A col rows)"

text \<open>\<^verbatim>\<open>A[[pivot, rank]] = A[[rank, pivot]]\<close>\<close>

definition swap_rows :: "int list list \<Rightarrow> nat \<Rightarrow> nat \<Rightarrow> int list list" where
  "swap_rows A pivot rank = A[pivot := A ! rank, rank := A ! pivot]"

text \<open>\<^verbatim>\<open>A[row] ^= A[rank]\<close>\<close>

definition xor_row :: "int list \<Rightarrow> int list \<Rightarrow> int list" where
  "xor_row a b = map2 (XOR) a b"

text \<open>
  \<^verbatim>\<open>for row in range(rank+1, r): if A[row, col] == 1: A[row] ^= A[rank]\<close>
\<close>

fun eliminate :: "nat \<Rightarrow> nat \<Rightarrow> nat list \<Rightarrow> int list list \<Rightarrow> py_error + int list list" where
  "eliminate col rank [] A = Inr A"
| "eliminate col rank (row # rows) A =
     (case cell A row col of
        Inl e \<Rightarrow> Inl e
      | Inr v \<Rightarrow>
          eliminate col rank rows
            (if v = 1 then A[row := xor_row (A ! row) (A ! rank)] else A))"

text \<open>
  The column loop of \<open>solve_for_s_from_measurements\<close> (lines 155-174), on the state
  \<open>(A, rank, pivot_cols)\<close>; \<open>break\<close> ends the recursion.
\<close>

fun forward_loop ::
  "nat \<Rightarrow> nat list \<Rightarrow> int list list \<times> nat \<times> nat list
     \<Rightarrow> py_error + (int list list \<times> nat \<times> nat list)" where
  "forward_loop r [] st = Inr st"
| "forward_loop r (col # cols) (A, rank, pivot_cols) =
     (case find_pivot A col [rank..<r] of
        Inl e \<Rightarrow> Inl e
      | Inr None \<Rightarrow> forward_loop r cols (A, rank, pivot_cols)
      | Inr (Some pivot) \<Rightarrow>
          (case eliminate col rank [rank + 1..<r]
                  (if pivot \<noteq> rank then swap_rows A pivot rank else A) of
             Inl e \<Rightarrow> Inl e
           | Inr A' \<Rightarrow>
               if rank + 1 = r then Inr (A', rank + 1, pivot_cols @ [col])
               else forward_loop r cols (A', rank + 1, pivot_cols @ [col])))"

text \<open>
  The column loop of \<open>check_linear_independence\<close> (lines 223-238): the same steps on
  the state \<open>(A, rank)\<close>.
\<close>

fun rank_loop ::
  "nat \<Rightarrow> nat list \<Rightarrow> int list list \<times> nat \<Rightarrow> py_error + (int list list \<times> nat)" where
  "rank_loop r [] st = Inr st"
| "rank_loop r (col # cols) (A, rank) =
     (case find_pivot A col [rank..<r] of
        Inl e \<Rightarrow> Inl e
      | Inr None \<Rightarrow> rank_loop r cols (A, rank)
      | Inr (Some pivot) \<Rightarrow>
          (case eliminate col rank [rank + 1..<r]
                  (if pivot \<noteq> rank then swap_rows A pivot rank else A) of
             Inl e \<Rightarrow> Inl e
           | Inr A' \<Rightarrow>
               if rank + 1 = r then Inr (A', rank + 1)
               else rank_loop r cols (A', rank + 1)))"

section \<open>Back-substitution\<close>

text \<open>\<^verbatim>\<open>for j in range(n): if row[j] == 1: pivot_col = j; break\<close>\<close>

fun first_one :: "int list \<Rightarrow> nat list \<Rightarrow> py_error + nat option" where
  "first_one row [] = Inr None"
| "first_one row (j # js) =
     (case getitem row j of
        Inl e \<Rightarrow> Inl e
      | Inr v \<Rightarrow> if v = 1 then Inr (Some j) else first_one row js)"

text \<open>\<^verbatim>\<open>for j in range(pivot_col+1, n): rhs ^= (row[j] & s[j])\<close>\<close>

fun rhs_loop :: "int list \<Rightarrow> int list \<Rightarrow> nat list \<Rightarrow> int \<Rightarrow> py_error + int" where
  "rhs_loop row s [] rhs = Inr rhs"
| "rhs_loop row s (j # js) rhs =
     (case getitem row j of
        Inl e \<Rightarrow> Inl e
      | Inr v \<Rightarrow>
          (case getitem s j of
             Inl e \<Rightarrow> Inl e
           | Inr w \<Rightarrow> rhs_loop row s js (rhs XOR (v AND w))))"

text \<open>\<^verbatim>\<open>for i in reversed(range(rank)): ...; s[pivot_col] = rhs\<close>\<close>

fun back_loop :: "nat \<Rightarrow> int list list \<Rightarrow> nat list \<Rightarrow> int list \<Rightarrow> py_error + int list" where
  "back_loop n A [] s = Inr s"
| "back_loop n A (i # is) s =
     (case first_one (A ! i) [0..<n] of
        Inl e \<Rightarrow> Inl e
      | Inr None \<Rightarrow> back_loop n A is s
      | Inr (Some pivot_col) \<Rightarrow>
          (case rhs_loop (A ! i) s [pivot_col + 1..<n] 0 of
             Inl e \<Rightarrow> Inl e
           | Inr rhs \<Rightarrow> back_loop n A is (s[pivot_col := rhs])))"

section \<open>The solver\<close>

text \<open>
  The forward phase of \<open>solve_for_s_from_measurements\<close> on a non-empty array: the final
  \<open>(A, rank, pivot_cols)\<close>.
\<close>

definition forward_elimination ::
  "nat \<Rightarrow> int list list \<Rightarrow> py_error + (int list list \<times> nat \<times> nat list)" where
  "forward_elimination n A = forward_loop (length A) [0..<n] (A, 0, [])"

text \<open>
  Lines 177-209. The result is \<open>None\<close> (Python's \<open>None\<close>) or \<open>Some\<close> of the integer returned.
\<close>

definition nullspace_vector ::
  "nat \<Rightarrow> int list list \<times> nat \<times> nat list \<Rightarrow> py_error + int" where
  "nullspace_vector n st =
     (case st of (A, rank, pivot_cols) \<Rightarrow>
        if rank = n then Inr 0
        else
          let free_cols = filter (\<lambda>col. col \<notin> set pivot_cols) [0..<n] in
          (case free_cols of
             [] \<Rightarrow> Inr 0
           | free_choice # _ \<Rightarrow>
               (case back_loop n A (rev [0..<rank]) ((replicate n 0)[free_choice := 1]) of
                  Inl e \<Rightarrow> Inl e
                | Inr s \<Rightarrow> Inr (bits_to_int s))))"

text \<open>
  \<open>r, c = A.shape if A.size else (0, n)\<close>: an array without entries (no rows, or rows
  of length 0) gives \<open>r = 0\<close> and the result \<open>None\<close>.
\<close>

definition solve_for_s_from_measurements :: "nat \<Rightarrow> string list \<Rightarrow> py_error + int option" where
  "solve_for_s_from_measurements n measured_bitstrings =
     (case parse_rows measured_bitstrings of
        Inl e \<Rightarrow> Inl e
      | Inr rows \<Rightarrow>
          (case np_array rows of
             Inl e \<Rightarrow> Inl e
           | Inr A \<Rightarrow>
               if length A = 0 \<or> ncols A = 0 then Inr None
               else
                 (case forward_elimination n A of
                    Inl e \<Rightarrow> Inl e
                  | Inr st \<Rightarrow>
                      (case nullspace_vector n st of
                         Inl e \<Rightarrow> Inl e
                       | Inr s \<Rightarrow> Inr (Some s)))))"

section \<open>The validator\<close>

text \<open>
  \<open>check_linear_independence\<close>: the pair \<open>(rank >= n - 1, rank)\<close>. The column loop runs
  over \<open>range(min(n, r))\<close>.
\<close>

definition check_linear_independence :: "string list \<Rightarrow> nat \<Rightarrow> py_error + (bool \<times> nat)" where
  "check_linear_independence vectors n =
     (if vectors = [] then Inr (False, 0)
      else
        (case parse_rows vectors of
           Inl e \<Rightarrow> Inl e
         | Inr rows \<Rightarrow>
             (case np_array rows of
                Inl e \<Rightarrow> Inl e
              | Inr A \<Rightarrow>
                  (case rank_loop (length A) [0..<min n (length A)] (A, 0) of
                     Inl e \<Rightarrow> Inl e
                   | Inr (A', rank) \<Rightarrow> Inr (int rank \<ge> int n - 1, rank)))))"

text \<open>
  The status string returned with the result:
  \<^item> \<open>NoMeasurements\<close> is \<^verbatim>\<open>"No measurements"\<close>,
  \<^item> \<open>AllUninformative\<close> is \<^verbatim>\<open>"All measurements uninformative (y=0...0)"\<close>,
  \<^item> \<open>Insufficient rank need\<close> is
    \<^verbatim>\<open>f"Insufficient independent vectors (rank={rank}, need {n-1})"\<close>,
  \<^item> \<open>Success\<close> is \<^verbatim>\<open>"Success"\<close>.
\<close>

datatype status = NoMeasurements | AllUninformative | Insufficient int int | Success

text \<open>\<^verbatim>\<open>[m for m in measured_bitstrings if m != '0'*n]\<close>\<close>

definition useful_measurements :: "nat \<Rightarrow> string list \<Rightarrow> string list" where
  "useful_measurements n measured_bitstrings =
     filter (\<lambda>m. m \<noteq> replicate n (CHR ''0'')) measured_bitstrings"

definition solve_for_s_enhanced :: "nat \<Rightarrow> string list \<Rightarrow> py_error + (int option \<times> status)" where
  "solve_for_s_enhanced n measured_bitstrings =
     (if measured_bitstrings = [] then Inr (None, NoMeasurements)
      else if useful_measurements n measured_bitstrings = [] then Inr (None, AllUninformative)
      else
        (case check_linear_independence (useful_measurements n measured_bitstrings) n of
           Inl e \<Rightarrow> Inl e
         | Inr (is_independent, rank) \<Rightarrow>
             if \<not> is_independent \<and> int rank < int n - 1
             then Inr (None, Insufficient (int rank) (int n - 1))
             else
               (case solve_for_s_from_measurements n (useful_measurements n measured_bitstrings) of
                  Inl e \<Rightarrow> Inl e
                | Inr s_int \<Rightarrow> Inr (s_int, Success))))"

section \<open>The retry loop\<close>

text \<open>
  \<open>run_test_case\<close> calls two collaborators that are not part of the solver: \<open>run_simon\<close>
  (the simulated circuit) and \<open>add_measurement_noise\<close> (random bit flips). They are
  parameters here: \<open>oracle attempt\<close> is the list of items of the counts dictionary that
  \<open>run_simon\<close> returns in the given attempt, and \<open>noise attempt\<close> is what the noise does
  to it. \<open>collect_measurements\<close> is the list \<open>measured\<close> of one attempt (each key
  reversed, then cut to \<open>limit_measurements\<close>, which is \<open>None\<close> or a count; 0 is falsy
  and does not limit). The second component of the result of the loop counts the
  attempts made, that is the calls of \<open>run_simon\<close>.
\<close>

type_synonym counts = "(string \<times> nat) list"

definition collect_measurements ::
  "(nat \<Rightarrow> counts) \<Rightarrow> (nat \<Rightarrow> counts \<Rightarrow> counts) \<Rightarrow> nat option \<Rightarrow> bool \<Rightarrow> nat
     \<Rightarrow> string list" where
  "collect_measurements oracle noise limit_measurements add_noise attempt =
     (let counts0 = oracle attempt;
          counts1 = (if add_noise then noise attempt counts0 else counts0);
          measured = map (\<lambda>(k, v). rev k) counts1
      in case limit_measurements of
           None \<Rightarrow> measured
         | Some l \<Rightarrow> if l \<noteq> 0 then take l measured else measured)"

fun attempt_loop ::
  "nat \<Rightarrow> int \<Rightarrow> (nat \<Rightarrow> string list) \<Rightarrow> bool \<Rightarrow> nat \<Rightarrow> nat list \<Rightarrow> nat
     \<Rightarrow> (py_error + bool) \<times> nat" where
  "attempt_loop n s_int collect add_noise max_retries [] calls = (Inr False, calls)"
| "attempt_loop n s_int collect add_noise max_retries (attempt # rest) calls =
     (case solve_for_s_enhanced n (collect attempt) of
        Inl e \<Rightarrow> (Inl e, calls + 1)
      | Inr (Some s_found, st) \<Rightarrow>
          if s_found = s_int then (Inr True, calls + 1)
          else if add_noise
          then attempt_loop n s_int collect add_noise max_retries rest (calls + 1)
          else (Inr False, calls + 1)
      | Inr (None, st) \<Rightarrow>
          if int attempt < int max_retries - 1
          then attempt_loop n s_int collect add_noise max_retries rest (calls + 1)
          else (Inr False, calls + 1))"

definition run_test_case ::
  "nat \<Rightarrow> int \<Rightarrow> (nat \<Rightarrow> counts) \<Rightarrow> (nat \<Rightarrow> counts \<Rightarrow> counts) \<Rightarrow> nat option \<Rightarrow> bool \<Rightarrow> nat
     \<Rightarrow> (py_error + bool) \<times> nat" where
  "run_test_case n s_int oracle noise limit_measurements add_noise max_retries =
     attempt_loop n s_int (collect_measurements oracle noise limit_measurements add_noise)
       add_noise max_retries [0..<max_retries] 0"

section \<open>Notions used in the statements and the proofs\<close>

text \<open>
  The invariant of the loop of \<open>build_simon_function\<close> before it treats \<open>x = k\<close>:
  an input is seen when it or its partner \<open>x ^ s\<close> is below \<open>k\<close>; the dictionary is
  defined on the seen inputs, gives partners the same label and different pairs
  different labels, all of them below \<open>next_output\<close>.
\<close>

definition simon_inv :: "nat \<Rightarrow> nat \<Rightarrow> nat \<Rightarrow> simon_state \<Rightarrow> bool" where
  "simon_inv N s k st =
     (case st of (seen, m, nxt) \<Rightarrow>
        length seen = N
        \<and> (\<forall>x<N. seen ! x \<longleftrightarrow> (x < k \<or> x XOR s < k))
        \<and> (\<forall>x. m x \<noteq> None \<longleftrightarrow> (x < N \<and> seen ! x))
        \<and> (\<forall>x. m x \<noteq> None \<longrightarrow> m (x XOR s) = m x)
        \<and> (\<forall>x y. m x \<noteq> None \<longrightarrow> m x = m y \<longrightarrow> y = x \<or> y = x XOR s)
        \<and> (\<forall>x v. m x = Some v \<longrightarrow> v < nxt))"

text \<open>
  A measurement string of \<open>n\<close> bits, and a vector of \<open>n\<close> bits as the solver holds it
  (a list of the integers 0 and 1).
\<close>

definition bitstring :: "nat \<Rightarrow> string \<Rightarrow> bool" where
  "bitstring n m = (length m = n \<and> set m \<subseteq> {CHR ''0'', CHR ''1''})"

definition bitvec :: "nat \<Rightarrow> int list \<Rightarrow> bool" where
  "bitvec n v = (length v = n \<and> set v \<subseteq> {0, 1})"

text \<open>
  The dot product over GF(2), \<open>y \<cdot> s\<close>: addition is XOR and multiplication is AND, as in
  the solver's \<^verbatim>\<open>rhs ^= (row[j] & s[j])\<close>. On bit vectors it is the sum of the products
  modulo 2 (lemma \<open>gf2_dot_parity\<close>).
\<close>

fun gf2_dot :: "int list \<Rightarrow> int list \<Rightarrow> int" where
  "gf2_dot (a # as) (b # bs) = (a AND b) XOR gf2_dot as bs"
| "gf2_dot _ _ = 0"

text \<open>
  Linear independence over GF(2): no non-empty sub-list of the vectors adds up (by XOR)
  to the zero vector. \<open>gf2_span n S\<close> is the set of all XOR-combinations of vectors
  of \<open>S\<close>.
\<close>

fun xor_all :: "nat \<Rightarrow> int list list \<Rightarrow> int list" where
  "xor_all n [] = replicate n 0"
| "xor_all n (v # vs) = xor_row v (xor_all n vs)"

definition gf2_independent :: "nat \<Rightarrow> int list list \<Rightarrow> bool" where
  "gf2_independent n vs = (\<forall>ws \<in> set (subseqs vs). ws = [] \<or> xor_all n ws \<noteq> replicate n 0)"

inductive_set gf2_span :: "nat \<Rightarrow> int list set \<Rightarrow> int list set"
  for n :: nat and S :: "int list set" where
  span_zero: "replicate n 0 \<in> gf2_span n S"
| span_add: "v \<in> S \<Longrightarrow> w \<in> gf2_span n S \<Longrightarrow> xor_row v w \<in> gf2_span n S"

text \<open>
  The invariant of the column loop before it treats column \<open>k\<close>, for an array of \<open>r\<close>
  rows of \<open>n\<close> bits: the pivot columns found so far increase and lie below \<open>k\<close>, row \<open>i\<close>
  below \<open>rank\<close> has its first 1 in its pivot column, and the rows from \<open>rank\<close> on are
  zero in the columns below \<open>k\<close>. \<open>row_equiv\<close>: two arrays have the same row space.
\<close>

definition bitmat :: "nat \<Rightarrow> nat \<Rightarrow> int list list \<Rightarrow> bool" where
  "bitmat r n A = (length A = r \<and> (\<forall>row \<in> set A. bitvec n row))"

definition echelon :: "nat \<Rightarrow> nat \<Rightarrow> nat \<Rightarrow> int list list \<times> nat \<times> nat list \<Rightarrow> bool" where
  "echelon r n k st =
     (case st of (A, rank, pivs) \<Rightarrow>
        bitmat r n A \<and> rank \<le> r \<and> length pivs = rank \<and> sorted_wrt (<) pivs
        \<and> (\<forall>p \<in> set pivs. p < k)
        \<and> (\<forall>i<rank. A ! i ! (pivs ! i) = 1 \<and> (\<forall>j<pivs ! i. A ! i ! j = 0))
        \<and> (\<forall>i. rank \<le> i \<and> i < r \<longrightarrow> (\<forall>j<k. A ! i ! j = 0)))"

definition row_equiv :: "nat \<Rightarrow> int list list \<Rightarrow> int list list \<Rightarrow> bool" where
  "row_equiv n A B = (set A \<subseteq> gf2_span n (set B) \<and> set B \<subseteq> gf2_span n (set A))"

section \<open>The validator's verdicts\<close>

lemma check_flag:
  "check_linear_independence vs n = Inr (ok, rank) \<Longrightarrow> vs \<noteq> []
     \<Longrightarrow> ok = (int n - 1 \<le> int rank)"
  by (auto simp: check_linear_independence_def split: sum.splits prod.splits)

text \<open>
  C3. When the list that survives the all-zero filter is not empty, the validator fails
  with the insufficient-vectors status exactly when the rank computed by
  \<open>check_linear_independence\<close> is below \<open>n - 1\<close>, and the status then carries that rank
  and \<open>n - 1\<close>. For \<open>n = 4\<close> the list \<open>['0110', '0110']\<close> fails with rank 1 and need 3.
\<close>

theorem insufficient_iff_rank_below:
  assumes "useful_measurements n ms \<noteq> []"
  shows "((\<exists>rank need. solve_for_s_enhanced n ms = Inr (None, Insufficient rank need))
          \<longleftrightarrow> (\<exists>ok rank. check_linear_independence (useful_measurements n ms) n = Inr (ok, rank)
                 \<and> int rank < int n - 1))
       \<and> (\<forall>ok rank. check_linear_independence (useful_measurements n ms) n = Inr (ok, rank)
                 \<and> int rank < int n - 1
             \<longrightarrow> solve_for_s_enhanced n ms = Inr (None, Insufficient (int rank) (int n - 1)))
       \<and> solve_for_s_enhanced 4 [''0110'', ''0110''] = Inr (None, Insufficient 1 3)"
proof -
  from assms have ne: "ms \<noteq> []" by (auto simp: useful_measurements_def)
  have general: "((\<exists>rank need. solve_for_s_enhanced n ms = Inr (None, Insufficient rank need))
          \<longleftrightarrow> (\<exists>ok rank. check_linear_independence (useful_measurements n ms) n = Inr (ok, rank)
                 \<and> int rank < int n - 1))
       \<and> (\<forall>ok rank. check_linear_independence (useful_measurements n ms) n = Inr (ok, rank)
                 \<and> int rank < int n - 1
             \<longrightarrow> solve_for_s_enhanced n ms = Inr (None, Insufficient (int rank) (int n - 1)))"
    using assms ne
    by (auto simp: solve_for_s_enhanced_def split: sum.splits prod.splits dest: check_flag)
  have inst: "solve_for_s_enhanced 4 [''0110'', ''0110''] = Inr (None, Insufficient 1 3)"
    by code_simp
  from general inst show ?thesis by blast
qed

theorem insufficient_iff_rank_below_witness:
  "useful_measurements 4 [''0110'', ''0110''] \<noteq> []
   \<and> check_linear_independence (useful_measurements 4 [''0110'', ''0110'']) 4 = Inr (False, 1)
   \<and> solve_for_s_enhanced 4 [''0110'', ''0110''] = Inr (None, Insufficient 1 3)"
proof -
  have h: "useful_measurements 4 [''0110'', ''0110''] \<noteq> []"
    by code_simp
  have c: "check_linear_independence (useful_measurements 4 [''0110'', ''0110'']) 4 = Inr (False, 1)"
    by code_simp
  from insufficient_iff_rank_below [OF h] c h show ?thesis
    by simp
qed

text \<open>
  C4. An empty measurement list, or one whose every element is the all-zero string of
  length \<open>n\<close>, gives no solution (\<open>None\<close>) with the status "No measurements" or
  "All measurements uninformative": no vector is returned.
\<close>

theorem uninformative_input_fails:
  assumes "ms = [] \<or> (\<forall>m \<in> set ms. m = replicate n (CHR ''0''))"
  shows "solve_for_s_enhanced n ms
           = Inr (None, if ms = [] then NoMeasurements else AllUninformative)"
proof -
  from assms have "useful_measurements n ms = []"
    by (auto simp: useful_measurements_def filter_empty_conv)
  then show ?thesis by (simp add: solve_for_s_enhanced_def)
qed

theorem uninformative_input_fails_witness:
  "([''0000'', ''0000'', ''0000''] = []
      \<or> (\<forall>m \<in> set [''0000'', ''0000'', ''0000'']. m = replicate 4 (CHR ''0'')))
   \<and> solve_for_s_enhanced 4 [''0000'', ''0000'', ''0000''] = Inr (None, AllUninformative)"
proof -
  have h: "[''0000'', ''0000'', ''0000''] = []
      \<or> (\<forall>m \<in> set [''0000'', ''0000'', ''0000'']. m = replicate 4 (CHR ''0''))"
    by code_simp
  have ne: "([''0000'', ''0000'', ''0000''] = []) = False"
    by (rule iffI) (rule list.distinct(2) [THEN notE], assumption, erule FalseE)
  from uninformative_input_fails [OF h] h show ?thesis
    unfolding ne if_False by (rule_tac conjI)
qed

text \<open>
  C5 (the code departs from the claim). Appending a duplicate changes the rank that
  \<open>check_linear_independence\<close> computes: for \<open>n = 2\<close> the list \<open>['01']\<close> has computed
  rank 0, since only column 0 is scanned, and \<open>['01', '01']\<close> has computed rank 1.
\<close>

theorem duplicate_changes_checked_rank:
  "check_linear_independence [''01''] 2 = Inr (False, 0)
   \<and> check_linear_independence ([''01''] @ [''01'']) 2 = Inr (True, 1)"
  by code_simp

text \<open>
  C6 (the code departs from the claim). On the single row \<open>01\<close> with \<open>n = 2\<close> the forward
  elimination of the solver finds one pivot, in column 1, and
  \<open>check_linear_independence\<close> returns rank 0.
\<close>

theorem checked_rank_differs_from_pivot_count:
  "check_linear_independence [''01''] 2 = Inr (False, 0)
   \<and> parse_rows [''01''] = Inr [[0, 1]]
   \<and> forward_elimination 2 [[0, 1]] = Inr ([[0, 1]], 1, [1])
   \<and> solve_for_s_from_measurements 2 [''01''] = Inr (Some 2)"
  by code_simp

text \<open>
  C7, as the code has it. The cleaned list is the input without the all-zero strings:
  every other string occurs in it as often as in the input, so duplicates are kept, and
  it is free of duplicates when the input is.
\<close>

theorem useful_measurements_keeps_duplicates:
  "count_list (useful_measurements n ms) m
     = (if m = replicate n (CHR ''0'') then 0 else count_list ms m)
   \<and> (distinct ms \<longrightarrow> distinct (useful_measurements n ms))"
  by (induction ms) (auto simp: useful_measurements_def)

theorem useful_measurements_keeps_duplicates_witness:
  "count_list (useful_measurements 4 [''0110'', ''0000'', ''0110'']) ''0110'' = 2
   \<and> distinct [''0110'', ''0000'', ''1001'']
   \<and> distinct (useful_measurements 4 [''0110'', ''0000'', ''1001''])"
proof -
  have d: "distinct [''0110'', ''0000'', ''1001'']"
    by code_simp
  have c: "(if ''0110'' = replicate 4 (CHR ''0'') then 0
            else count_list [''0110'', ''0000'', ''0110''] ''0110'') = (2::nat)"
    by code_simp
  from useful_measurements_keeps_duplicates [of 4 "[''0110'', ''0000'', ''0110'']" "''0110''"]
  have "count_list (useful_measurements 4 [''0110'', ''0000'', ''0110'']) ''0110'' = 2"
    unfolding c by (rule conjunct1)
  moreover from useful_measurements_keeps_duplicates [of 4 "[''0110'', ''0000'', ''1001'']" "''0110''"]
  have "distinct (useful_measurements 4 [''0110'', ''0000'', ''1001''])"
    using d by blast
  ultimately show ?thesis using d by blast
qed

text \<open>
  C7 as stated fails: the list \<open>['0110', '0110']\<close> is handed on with its duplicate.
\<close>

theorem cleaned_list_has_duplicates:
  "\<not> distinct (useful_measurements 4 [''0110'', ''0110''])"
  by code_simp

text \<open>
  C8. For \<open>n = 4\<close> the clean vectors \<open>0010, 0111, 1001\<close> give 13, which is \<open>1101\<close>; with
  \<open>0010\<close> corrupted to \<open>0011\<close> the rank check still passes and the value returned is
  11, which is \<open>1011\<close> and differs from \<open>1101\<close>.
\<close>

theorem noise_scenario:
  "solve_for_s_enhanced 4 [''0010'', ''0111'', ''1001''] = Inr (Some 13, Success)
   \<and> int_to_bits 13 4 = [1, 1, 0, 1]
   \<and> solve_for_s_enhanced 4 [''0011'', ''0111'', ''1001''] = Inr (Some 11, Success)
   \<and> int_to_bits 11 4 = [1, 0, 1, 1]
   \<and> solve_for_s_enhanced 4 [''0011'', ''0111'', ''1001''] \<noteq> Inr (Some 13, Success)"
  by code_simp

section \<open>The retry budget\<close>

lemma attempts_bound:
  "snd (attempt_loop n s_int collect add_noise max_retries xs calls) \<le> calls + length xs"
proof (induction xs arbitrary: calls)
  case Nil
  then show ?case by simp
next
  case (Cons a xs)
  have "snd (attempt_loop n s_int collect add_noise max_retries xs (calls + 1))
          \<le> calls + 1 + length xs"
    by (rule Cons.IH)
  then show ?case
    by (auto split: sum.splits prod.splits option.splits)
qed

lemma all_attempts_fail:
  assumes "\<forall>a. k \<le> a \<and> a < m \<longrightarrow> (\<exists>st. solve_for_s_enhanced n (collect a) = Inr (None, st))"
    and "k \<le> m"
  shows "attempt_loop n s_int collect add_noise m [k..<m] k = (Inr False, m)"
  using assms
proof (induction "m - k" arbitrary: k)
  case 0
  then show ?case by simp
next
  case (Suc d)
  then have km: "k < m" by simp
  then have upt: "[k..<m] = k # [Suc k..<m]" by (simp add: upt_conv_Cons)
  from Suc.prems km obtain st where st: "solve_for_s_enhanced n (collect k) = Inr (None, st)"
    by blast
  show ?case
  proof (cases "int k < int m - 1")
    case True
    have "attempt_loop n s_int collect add_noise m [Suc k..<m] (Suc k) = (Inr False, m)"
      using Suc.hyps Suc.prems True by (intro Suc.hyps(1)) auto
    then show ?thesis using True st upt by simp
  next
    case False
    with km have "Suc k = m" by simp
    then show ?thesis using False st upt by simp
  qed
qed

text \<open>
  C9. Whatever the oracle and the noise return, \<open>run_test_case\<close> makes at most
  \<open>max_retries\<close> attempts. When every attempt within the budget fails validation (the
  solver returns \<open>None\<close>), it makes exactly \<open>max_retries\<close> attempts and returns \<open>False\<close>;
  so it does with \<open>max_retries = 3\<close>.
\<close>

theorem run_test_case_budget:
  "snd (run_test_case n s_int oracle noise limit add_noise max_retries) \<le> max_retries
   \<and> ((\<forall>a < max_retries. \<exists>st.
          solve_for_s_enhanced n (collect_measurements oracle noise limit add_noise a)
            = Inr (None, st))
        \<longrightarrow> run_test_case n s_int oracle noise limit add_noise max_retries
              = (Inr False, max_retries))"
proof -
  have "snd (run_test_case n s_int oracle noise limit add_noise max_retries) \<le> max_retries"
    using attempts_bound [of n s_int "collect_measurements oracle noise limit add_noise"
            add_noise max_retries "[0..<max_retries]" 0]
    by (simp add: run_test_case_def)
  moreover have "run_test_case n s_int oracle noise limit add_noise max_retries
              = (Inr False, max_retries)"
    if "\<forall>a < max_retries. \<exists>st.
          solve_for_s_enhanced n (collect_measurements oracle noise limit add_noise a)
            = Inr (None, st)"
    using that all_attempts_fail [of 0 max_retries n
            "collect_measurements oracle noise limit add_noise" s_int add_noise]
    by (simp add: run_test_case_def)
  ultimately show ?thesis by blast
qed

theorem run_test_case_budget_witness:
  "solve_for_s_enhanced 4
     (collect_measurements (\<lambda>k. [(''0000'', 1024)]) (\<lambda>k c. c) None False 0)
       = Inr (None, AllUninformative)
   \<and> run_test_case 4 13 (\<lambda>k. [(''0000'', 1024)]) (\<lambda>k c. c) None False 3 = (Inr False, 3)"
proof -
  have m: "collect_measurements (\<lambda>k. [(''0000'', 1024)]) (\<lambda>k c. c) None False a = [''0000'']" for a
    by (simp add: collect_measurements_def)
  have f: "solve_for_s_enhanced 4 [''0000''] = Inr (None, AllUninformative)"
    by code_simp
  have h: "\<forall>a < 3. \<exists>st. solve_for_s_enhanced 4
        (collect_measurements (\<lambda>k. [(''0000'', 1024)]) (\<lambda>k c. c) None False a) = Inr (None, st)"
    using m f by simp
  from run_test_case_budget [of 4 13 "\<lambda>k. [(''0000'', 1024)]" "\<lambda>k c. c" None False 3] h
  have "run_test_case 4 13 (\<lambda>k. [(''0000'', 1024)]) (\<lambda>k c. c) None False 3 = (Inr False, 3)"
    by blast
  with m f show ?thesis by simp
qed

section \<open>The classical Simon function is two-to-one\<close>

lemma xor_nat_bound: "(x::nat) < 2 ^ n \<Longrightarrow> s < 2 ^ n \<Longrightarrow> x XOR s < 2 ^ n"
  by (simp add: take_bit_xor flip: take_bit_nat_eq_self_iff)

lemma xor_nat_cancel: "((x::nat) XOR s) XOR s = x"
  by (simp add: xor.assoc)

lemma xor_nat_fix: "((x::nat) XOR s = x) = (s = 0)"
  by (metis xor.assoc xor_self_eq xor.left_neutral xor.right_neutral)

lemma xor_nat_swap: "((x::nat) XOR s = k) = (x = k XOR s)"
  by (metis xor.assoc xor.right_neutral xor_self_eq)

lemma simon_step_seen:
  assumes inv: "simon_inv N s k (seen, m, nxt)" and k: "k < N" and seen: "seen ! k"
  shows "simon_step s k (seen, m, nxt) = Inr (seen, m, nxt) \<and> simon_inv N s (Suc k) (seen, m, nxt)"
proof -
  from inv have len: "length seen = N"
    and sn: "\<And>x. x < N \<Longrightarrow> seen ! x \<longleftrightarrow> (x < k \<or> x XOR s < k)"
    by (auto simp: simon_inv_def)
  from sn [OF k] seen have ks: "k XOR s < k" by simp
  have "seen ! x \<longleftrightarrow> (x < Suc k \<or> x XOR s < Suc k)" if "x < N" for x
  proof -
    have "x XOR s = k \<Longrightarrow> x < k" using ks by (simp add: xor_nat_swap)
    moreover have "x = k \<Longrightarrow> x XOR s < k" using ks by simp
    ultimately show ?thesis using sn [OF that] by (auto simp: less_Suc_eq)
  qed
  moreover from inv have "length seen = N"
    "\<forall>x. m x \<noteq> None \<longleftrightarrow> (x < N \<and> seen ! x)"
    "\<forall>x. m x \<noteq> None \<longrightarrow> m (x XOR s) = m x"
    "\<forall>x y. m x \<noteq> None \<longrightarrow> m x = m y \<longrightarrow> y = x \<or> y = x XOR s"
    "\<forall>x v. m x = Some v \<longrightarrow> v < nxt"
    unfolding simon_inv_def prod.case by blast+
  ultimately have "simon_inv N s (Suc k) (seen, m, nxt)"
    unfolding simon_inv_def prod.case by blast
  then show ?thesis using seen by (simp add: simon_step_def)
qed

lemma simon_step_fresh:
  assumes inv: "simon_inv N s k (seen, m, nxt)" and k: "k < N" and seen: "\<not> seen ! k"
    and N: "N = 2 ^ n" and s: "s < N"
  shows "\<exists>st'. simon_step s k (seen, m, nxt) = Inr st' \<and> simon_inv N s (Suc k) st'"
proof -
  let ?y = "k XOR s"
  let ?seen = "seen[k := True, ?y := True]"
  let ?m = "m(k \<mapsto> nxt, ?y \<mapsto> nxt)"
  from inv have len: "length seen = N"
    and sn: "\<And>x. x < N \<Longrightarrow> seen ! x \<longleftrightarrow> (x < k \<or> x XOR s < k)"
    and dm: "\<And>x. m x \<noteq> None \<longleftrightarrow> (x < N \<and> seen ! x)"
    and sym: "\<And>x. m x \<noteq> None \<Longrightarrow> m (x XOR s) = m x"
    and two: "\<And>x y. m x \<noteq> None \<Longrightarrow> m x = m y \<Longrightarrow> y = x \<or> y = x XOR s"
    and bnd: "\<And>x v. m x = Some v \<Longrightarrow> v < nxt"
    by (auto simp: simon_inv_def)
  have yN: "?y < N" using k s N by (simp add: xor_nat_bound)
  from sn [OF k] seen have yk: "k \<le> ?y" by simp
  have step: "simon_step s k (seen, m, nxt) = Inr (?seen, ?m, nxt + 1)"
  proof (cases "?y = k")
    case True
    then show ?thesis using seen by (simp add: simon_step_def)
  next
    case False
    then show ?thesis using seen yN len by (simp add: simon_step_def Let_def)
  qed
  have mk: "m k = None" using dm [of k] seen by simp
  have my: "m ?y = None"
  proof (rule ccontr)
    assume "m ?y \<noteq> None"
    from sym [OF this] this have "m k \<noteq> None" by (simp add: xor_nat_cancel)
    with mk show False by simp
  qed
  have i1: "length ?seen = N" using len by simp
  have i2: "?seen ! x \<longleftrightarrow> (x < Suc k \<or> x XOR s < Suc k)" if "x < N" for x
  proof -
    have "?seen ! x \<longleftrightarrow> (x = k \<or> x = ?y \<or> seen ! x)"
      using that len k yN by (auto simp: nth_list_update)
    also have "\<dots> \<longleftrightarrow> (x = k \<or> x XOR s = k \<or> x < k \<or> x XOR s < k)"
      using sn [OF that] by (simp add: xor_nat_swap)
    finally show ?thesis by (auto simp: less_Suc_eq)
  qed
  have i3: "?m x \<noteq> None \<longleftrightarrow> (x < N \<and> ?seen ! x)" for x
    using dm [of x] len k yN by (auto simp: nth_list_update)
  have mval: "?m x = (if x = k \<or> x = ?y then Some nxt else m x)" for x
    by simp
  have i4: "?m (x XOR s) = ?m x" if "?m x \<noteq> None" for x
  proof (cases "x = k \<or> x = ?y")
    case True
    then have "x XOR s = k \<or> x XOR s = ?y" by (auto simp: xor_nat_cancel)
    with True show ?thesis unfolding mval by simp
  next
    case False
    then have "\<not> (x XOR s = k \<or> x XOR s = ?y)"
      by (metis xor_nat_swap xor_nat_cancel)
    with False that sym [of x] show ?thesis unfolding mval by simp
  qed
  have i5: "y = x \<or> y = x XOR s" if "?m x \<noteq> None" "?m x = ?m y" for x y
  proof (cases "x = k \<or> x = ?y")
    case True
    then have "?m x = Some nxt" unfolding mval by simp
    with that have "?m y = Some nxt" by simp
    then have "y = k \<or> y = ?y" unfolding mval using bnd [of y nxt] by (auto split: if_splits)
    with True show ?thesis by (auto simp: xor_nat_cancel)
  next
    case False
    then have mx: "?m x = m x" unfolding mval by simp
    with that have "m x \<noteq> None" by simp
    then obtain v where v: "m x = Some v" by auto
    then have "v < nxt" by (rule bnd)
    with that mx v have "\<not> (y = k \<or> y = ?y)" unfolding mval by (auto split: if_splits)
    then have "?m y = m y" unfolding mval by simp
    with that mx two [of x y] show ?thesis by simp
  qed
  have i6: "v < nxt + 1" if "?m x = Some v" for x v
    using that bnd [of x v] unfolding mval by (auto split: if_splits)
  have "simon_inv N s (Suc k) (?seen, ?m, nxt + 1)"
    unfolding simon_inv_def prod.case
    using i1 i2 i3 i4 i5 i6 by blast
  with step show ?thesis by blast
qed

lemma simon_loop_inv:
  assumes "simon_inv N s k st" and "k \<le> N" and "N = 2 ^ n" and "s < N"
  shows "\<exists>st'. simon_loop s [k..<N] st = Inr st' \<and> simon_inv N s N st'"
  using assms
proof (induction "N - k" arbitrary: k st)
  case 0
  then show ?case by simp
next
  case (Suc d)
  then have kN: "k < N" by simp
  then have upt: "[k..<N] = k # [Suc k..<N]" by (simp add: upt_conv_Cons)
  obtain seen m nxt where st: "st = (seen, m, nxt)" by (cases st)
  have "\<exists>st'. simon_step s k st = Inr st' \<and> simon_inv N s (Suc k) st'"
  proof (cases "seen ! k")
    case True
    with simon_step_seen [of N s k seen m nxt] Suc.prems kN st show ?thesis by blast
  next
    case False
    with simon_step_fresh [of N s k seen m nxt n] Suc.prems kN st show ?thesis by blast
  qed
  then obtain st1 where s1: "simon_step s k st = Inr st1" and i1: "simon_inv N s (Suc k) st1"
    by blast
  have "\<exists>st'. simon_loop s [Suc k..<N] st1 = Inr st' \<and> simon_inv N s N st'"
    using Suc.hyps(2) kN Suc.prems(3,4) i1 by (intro Suc.hyps(1)) auto
  then show ?case using s1 upt by simp
qed

lemma simon_inv_init: "simon_inv N s 0 (replicate N False, Map.empty, 0)"
  by (simp add: simon_inv_def)

text \<open>
  C10. For \<open>s_int < 2 ^ n\<close> the dictionary returned by \<open>build_simon_function\<close> is
  defined on exactly the \<open>2 ^ n\<close> inputs and gives \<open>x\<close> and \<open>x ^ s_int\<close> the same value.
  For \<open>s_int \<noteq> 0\<close> the partner differs from \<open>x\<close> and two inputs with the same value are
  equal or partners (two-to-one); for \<open>s_int = 0\<close> the dictionary is injective.
\<close>

theorem build_simon_function_two_to_one:
  assumes "s_int < 2 ^ n"
  shows "\<exists>mapping. build_simon_function n s_int = Inr mapping
           \<and> dom mapping = {x. x < 2 ^ n}
           \<and> (\<forall>x < 2 ^ n. mapping x = mapping (x XOR s_int))
           \<and> (s_int \<noteq> 0 \<longrightarrow> (\<forall>x < 2 ^ n. \<forall>y < 2 ^ n.
                  x XOR s_int \<noteq> x \<and> (mapping x = mapping y \<longrightarrow> y = x \<or> y = x XOR s_int)))
           \<and> (s_int = 0 \<longrightarrow> inj_on mapping {x. x < 2 ^ n})"
proof -
  let ?N = "(2::nat) ^ n"
  from simon_loop_inv [OF simon_inv_init, of ?N n s_int] assms
  obtain seen m nxt where loop: "simon_loop s_int [0..<?N] (replicate ?N False, Map.empty, 0) = Inr (seen, m, nxt)"
    and inv: "simon_inv ?N s_int ?N (seen, m, nxt)"
    by (metis le0 prod_cases3)
  have b: "build_simon_function n s_int = Inr m"
    using loop by (simp add: build_simon_function_def push_bit_eq_mult)
  from inv have sn: "\<And>x. x < ?N \<Longrightarrow> seen ! x"
    and dm: "\<And>x. m x \<noteq> None \<longleftrightarrow> (x < ?N \<and> seen ! x)"
    and sym: "\<And>x. m x \<noteq> None \<Longrightarrow> m (x XOR s_int) = m x"
    and two: "\<And>x y. m x \<noteq> None \<Longrightarrow> m x = m y \<Longrightarrow> y = x \<or> y = x XOR s_int"
    by (auto simp: simon_inv_def)
  have d: "m x \<noteq> None \<longleftrightarrow> x < ?N" for x using dm [of x] sn [of x] by auto
  then have c1: "dom m = {x. x < ?N}" by (auto simp: dom_def)
  have c2: "\<forall>x < ?N. m x = m (x XOR s_int)" using sym d by simp
  have c3: "s_int \<noteq> 0 \<longrightarrow> (\<forall>x < ?N. \<forall>y < ?N.
                  x XOR s_int \<noteq> x \<and> (m x = m y \<longrightarrow> y = x \<or> y = x XOR s_int))"
    using two d by (auto simp: xor_nat_fix)
  have c4: "s_int = 0 \<longrightarrow> inj_on m {x. x < ?N}"
  proof
    assume z: "s_int = 0"
    show "inj_on m {x. x < ?N}"
    proof (rule inj_onI)
      fix x y assume "x \<in> {x. x < ?N}" "y \<in> {x. x < ?N}" "m x = m y"
      with two [of x y] d [of x] z show "x = y" by auto
    qed
  qed
  from b c1 c2 c3 c4 show ?thesis by blast
qed

theorem build_simon_function_two_to_one_witness:
  "(1::nat) < 2 ^ 2
   \<and> (\<exists>mapping. build_simon_function 2 1 = Inr mapping \<and> dom mapping = {x. x < 2 ^ 2}
         \<and> mapping 2 = mapping 3 \<and> mapping 0 \<noteq> mapping 2)"
proof -
  have h: "(1::nat) < 2 ^ 2" by simp
  from build_simon_function_two_to_one [OF h]
  obtain mapping where b: "build_simon_function 2 1 = Inr mapping"
    and d: "dom mapping = {x. x < 2 ^ 2}"
    and p: "\<And>x. x < 2 ^ 2 \<Longrightarrow> mapping x = mapping (x XOR 1)"
    and t: "\<And>x y. x < 2 ^ 2 \<Longrightarrow> y < 2 ^ 2 \<Longrightarrow> mapping x = mapping y \<Longrightarrow> y = x \<or> y = x XOR 1"
    by blast
  have x2: "(2::nat) XOR 1 = 3" by simp
  have x0: "(0::nat) XOR 1 = 1" by simp
  have l2: "(2::nat) < 2 ^ 2" and l0: "(0::nat) < 2 ^ 2" by simp_all
  from p [OF l2] have e: "mapping 2 = mapping 3" unfolding x2 .
  have ne: "mapping 0 \<noteq> mapping 2"
  proof
    assume "mapping 0 = mapping 2"
    from t [OF l0 l2 this] show False unfolding x0 by simp
  qed
  from h b d e ne show ?thesis by blast
qed

section \<open>Bit vectors and the dot product over GF(2)\<close>

lemma bitvec_nth: "bitvec n v \<Longrightarrow> j < n \<Longrightarrow> v ! j = 0 \<or> v ! j = 1"
  by (auto simp: bitvec_def dest: nth_mem)

lemma bitvecI: "length v = n \<Longrightarrow> (\<And>j. j < n \<Longrightarrow> v ! j = 0 \<or> v ! j = 1) \<Longrightarrow> bitvec n v"
  unfolding bitvec_def by (metis in_set_conv_nth insert_iff subsetI)

lemma bitvec_length: "bitvec n v \<Longrightarrow> length v = n"
  by (simp add: bitvec_def)

lemma bitvec_Cons: "bitvec (Suc n) (a # v) \<longleftrightarrow> (a = 0 \<or> a = 1) \<and> bitvec n v"
  by (auto simp: bitvec_def)

lemma bitvec_replicate: "bitvec n (replicate n 0)"
  by (auto simp: bitvec_def)

lemma bitvec_update: "bitvec n v \<Longrightarrow> x = 0 \<or> x = 1 \<Longrightarrow> bitvec n (v[j := x])"
  unfolding bitvec_def using set_update_subset_insert [of v j x] by auto

lemma xor_row_length: "length (xor_row a b) = min (length a) (length b)"
  by (simp add: xor_row_def)

lemma xor_row_nth: "j < length a \<Longrightarrow> j < length b \<Longrightarrow> xor_row a b ! j = a ! j XOR b ! j"
  by (simp add: xor_row_def)

lemma bitvec_xor_row: "bitvec n a \<Longrightarrow> bitvec n b \<Longrightarrow> bitvec n (xor_row a b)"
proof -
  assume a: "bitvec n a" and b: "bitvec n b"
  have "xor_row a b ! j = 0 \<or> xor_row a b ! j = 1" if "j < n" for j
    using bitvec_nth [OF a that] bitvec_nth [OF b that] a b that
    by (auto simp: xor_row_nth bitvec_def)
  moreover have "length (xor_row a b) = n"
    using a b by (simp add: xor_row_length bitvec_def)
  ultimately show ?thesis
    by (intro bitvecI) auto
qed

lemma xor_row_zero_left: "length w = n \<Longrightarrow> xor_row (replicate n 0) w = w"
  by (simp add: list_eq_iff_nth_eq xor_row_def)

lemma xor_row_self: "xor_row v v = replicate (length v) 0"
  by (simp add: list_eq_iff_nth_eq xor_row_def)

lemma xor_row_commute: "xor_row a b = xor_row b a"
  by (simp add: list_eq_iff_nth_eq xor_row_def xor.commute)

lemma xor_row_assoc: "xor_row (xor_row a b) c = xor_row a (xor_row b c)"
  by (simp add: list_eq_iff_nth_eq xor_row_def xor.assoc)

lemma xor_row_cancel: "length a = length b \<Longrightarrow> xor_row b (xor_row b a) = a"
  by (simp add: list_eq_iff_nth_eq xor_row_def flip: xor.assoc)

lemma gf2_dot_Nil_right: "gf2_dot a [] = 0"
  by (cases a) simp_all

lemma gf2_dot_xor_left:
  "length a = length b \<Longrightarrow> gf2_dot (xor_row a b) t = gf2_dot a t XOR gf2_dot b t"
proof (induction t arbitrary: a b)
  case Nil
  then show ?case by (simp add: gf2_dot_Nil_right)
next
  case (Cons t0 ts)
  show ?case
  proof (cases a)
    case Nil
    then show ?thesis using Cons.prems by (simp add: xor_row_def)
  next
    case a: (Cons a0 as)
    then obtain b0 bs where b: "b = b0 # bs" using Cons.prems by (cases b) auto
    have "length as = length bs" using Cons.prems a b by simp
    then have "gf2_dot (xor_row as bs) ts = gf2_dot as ts XOR gf2_dot bs ts"
      by (rule Cons.IH)
    then show ?thesis using a b
      by (simp add: xor_row_def bit.conj_xor_distrib2 xor.assoc xor.left_commute)
  qed
qed

lemma gf2_dot_zero_left: "gf2_dot (replicate n 0) t = 0"
  by (induction n arbitrary: t) (case_tac t, simp_all)+

lemma gf2_dot_zero_right: "gf2_dot a (replicate n 0) = 0"
proof (induction a arbitrary: n)
  case Nil
  then show ?case by simp
next
  case (Cons x a)
  then show ?case by (cases n) simp_all
qed

lemma gf2_dot_bit: "bitvec n a \<Longrightarrow> bitvec n b \<Longrightarrow> gf2_dot a b = 0 \<or> gf2_dot a b = 1"
proof (induction a b arbitrary: n rule: gf2_dot.induct)
  case (1 a as b bs)
  then obtain m where n: "n = Suc m" by (cases n) (auto simp: bitvec_def)
  from 1(2,3) have ab: "a = 0 \<or> a = 1" "b = 0 \<or> b = 1" and r: "bitvec m as" "bitvec m bs"
    unfolding n bitvec_Cons by auto
  from 1(1) [OF r] ab show ?case by auto
qed simp_all

lemma gf2_dot_parity:
  "bitvec n a \<Longrightarrow> bitvec n b \<Longrightarrow> gf2_dot a b = sum_list (map2 (*) a b) mod 2"
proof (induction a b arbitrary: n rule: gf2_dot.induct)
  case (1 a as b bs)
  then obtain m where n: "n = Suc m" by (cases n) (auto simp: bitvec_def)
  from 1(2,3) have ab: "a = 0 \<or> a = 1" "b = 0 \<or> b = 1" and r: "bitvec m as" "bitvec m bs"
    unfolding n bitvec_Cons by auto
  from gf2_dot_bit [OF r] have d: "gf2_dot as bs = 0 \<or> gf2_dot as bs = 1" .
  from 1(1) [OF r] have ih: "gf2_dot as bs = sum_list (map2 (*) as bs) mod 2" .
  have "(x + y) mod 2 = (x + y mod 2) mod 2" for x y :: int
    by (simp add: mod_add_right_eq)
  then have "sum_list (map2 (*) (a # as) (b # bs)) mod 2 = (a * b + gf2_dot as bs) mod 2"
    using ih by simp
  also have "\<dots> = (a AND b) XOR gf2_dot as bs"
    using ab d by auto
  finally show ?case by simp
qed simp_all

text \<open>dot product when the left vector is zero before index p\<close>

lemma gf2_dot_drop:
  "\<forall>j<p. a ! j = 0 \<Longrightarrow> p \<le> length a \<Longrightarrow> p \<le> length b \<Longrightarrow> gf2_dot a b = gf2_dot (drop p a) (drop p b)"
proof (induction p arbitrary: a b)
  case 0
  then show ?case by simp
next
  case (Suc p)
  then obtain a0 as b0 bs where ab: "a = a0 # as" "b = b0 # bs"
    by (cases a; cases b) auto
  from Suc.prems(1) ab have a0: "a0 = 0" and z: "\<forall>j<p. as ! j = 0" by auto
  from Suc.IH [OF z] Suc.prems ab have "gf2_dot as bs = gf2_dot (drop p as) (drop p bs)" by simp
  then show ?case using ab a0 by simp
qed

lemma gf2_dot_drop_Suc:
  "p < length a \<Longrightarrow> p < length b \<Longrightarrow>
     gf2_dot (drop p a) (drop p b) = (a ! p AND b ! p) XOR gf2_dot (drop (Suc p) a) (drop (Suc p) b)"
  by (simp flip: Cons_nth_drop_Suc)

lemma gf2_dot_all_zero: "\<forall>j<length a. a ! j = 0 \<Longrightarrow> gf2_dot a b = 0"
proof -
  assume "\<forall>j<length a. a ! j = 0"
  then have "a = replicate (length a) 0" by (simp add: list_eq_iff_nth_eq)
  then show ?thesis using gf2_dot_zero_left by metis
qed

section \<open>Spans and linear independence\<close>

text \<open>
  An independent list of \<open>m\<close> vectors spans exactly \<open>2 ^ m\<close> vectors, and \<open>k\<close> vectors span at
  most \<open>2 ^ k\<close>: this bounds the number of pivots from below.
\<close>

lemma span_length:
  assumes "\<forall>v\<in>S. length v = n" and "w \<in> gf2_span n S"
  shows "length w = n"
  using assms(2,1) by (induction rule: gf2_span.induct) (auto simp: xor_row_length)

lemma span_mono:
  assumes "S \<subseteq> T" and "w \<in> gf2_span n S"
  shows "w \<in> gf2_span n T"
  using assms(2,1) by (induction rule: gf2_span.induct) (auto intro: gf2_span.intros)

lemma span_gen:
  assumes "v \<in> S" and "length v = n"
  shows "v \<in> gf2_span n S"
proof -
  have "xor_row v (replicate n 0) \<in> gf2_span n S"
    using assms(1) by (intro span_add span_zero)
  moreover have "xor_row v (replicate n 0) = v"
    using assms(2) by (simp add: xor_row_commute [of v] xor_row_zero_left)
  ultimately show ?thesis by simp
qed

lemma span_xor:
  assumes "\<forall>v\<in>S. length v = n" and "a \<in> gf2_span n S" and "b \<in> gf2_span n S"
  shows "xor_row a b \<in> gf2_span n S"
  using assms(2)
proof (induction rule: gf2_span.induct)
  case span_zero
  have "length b = n" using assms(1,3) by (rule span_length)
  then have "xor_row (replicate n 0) b = b" by (rule xor_row_zero_left)
  then show ?case using assms(3) by (simp only:)
next
  case (span_add v w)
  have "xor_row v (xor_row w b) \<in> gf2_span n S"
    using span_add.hyps(1) span_add.IH by (rule gf2_span.span_add)
  then show ?case by (simp only: xor_row_assoc)
qed

lemma span_subset:
  assumes "\<forall>v\<in>T. length v = n" and "S \<subseteq> gf2_span n T" and "w \<in> gf2_span n S"
  shows "w \<in> gf2_span n T"
  using assms(3,1,2)
proof (induction rule: gf2_span.induct)
  case span_zero
  then show ?case by (simp add: gf2_span.span_zero)
next
  case (span_add v w)
  then show ?case by (auto intro: span_xor)
qed

lemma span_dot:
  assumes "\<forall>v\<in>S. length v = n" and "\<forall>v\<in>S. gf2_dot v t = 0" and "w \<in> gf2_span n S"
  shows "gf2_dot w t = 0"
  using assms(3)
proof (induction rule: gf2_span.induct)
  case span_zero
  then show ?case by (rule gf2_dot_zero_left)
next
  case (span_add v w)
  have "length w = n" using assms(1) span_add.hyps(2) by (rule span_length)
  moreover have "length v = n" using assms(1) span_add.hyps(1) by blast
  ultimately have "gf2_dot (xor_row v w) t = gf2_dot v t XOR gf2_dot w t"
    by (intro gf2_dot_xor_left) simp
  moreover have "gf2_dot v t = 0" using assms(2) span_add.hyps(1) by blast
  ultimately show ?case using span_add.IH by simp
qed

lemma span_empty: "gf2_span n {} = {replicate n 0}"
proof -
  have "w = replicate n 0" if "w \<in> gf2_span n {}" for w
    using that by (induction rule: gf2_span.induct) auto
  then show ?thesis by (auto intro: span_zero)
qed

lemma span_insert:
  assumes len: "\<forall>u\<in>insert v S. length u = n"
  shows "gf2_span n (insert v S) = gf2_span n S \<union> xor_row v ` gf2_span n S"
proof (intro set_eqI iffI)
  fix w
  assume "w \<in> gf2_span n (insert v S)"
  then show "w \<in> gf2_span n S \<union> xor_row v ` gf2_span n S"
  proof (induction rule: gf2_span.induct)
    case span_zero
    then show ?case by (simp add: gf2_span.span_zero)
  next
    case (span_add u w)
    from len have lenS: "\<forall>u\<in>S. length u = n" and lv: "length v = n" by auto
    from span_add.IH consider (a) "w \<in> gf2_span n S" | (b) w' where "w' \<in> gf2_span n S" "w = xor_row v w'"
      by auto
    then show ?case
    proof cases
      case a
      from span_add.hyps(1) show ?thesis
      proof
        assume "u = v" with a show ?thesis by simp
      next
        assume "u \<in> S" with a show ?thesis by (simp add: gf2_span.span_add)
      qed
    next
      case b
      have lw': "length w' = n" using b(1) lenS by (rule span_length [rotated])
      from span_add.hyps(1) show ?thesis
      proof
        assume "u = v"
        then have "xor_row u w = w'" using b(2) lv lw' by (simp add: xor_row_cancel)
        then show ?thesis using b(1) by simp
      next
        assume "u \<in> S"
        then have "xor_row u w' \<in> gf2_span n S" using b(1) by (rule gf2_span.span_add)
        moreover have "xor_row u w = xor_row v (xor_row u w')"
        proof -
          have "xor_row u (xor_row v w') = xor_row (xor_row u v) w'"
            by (simp only: xor_row_assoc)
          also have "\<dots> = xor_row (xor_row v u) w'"
            by (simp only: xor_row_commute [of u v])
          also have "\<dots> = xor_row v (xor_row u w')"
            by (simp only: xor_row_assoc)
          finally show ?thesis unfolding b(2) .
        qed
        ultimately show ?thesis by blast
      qed
    qed
  qed
next
  fix w
  assume "w \<in> gf2_span n S \<union> xor_row v ` gf2_span n S"
  then show "w \<in> gf2_span n (insert v S)"
  proof
    assume "w \<in> gf2_span n S"
    then show ?thesis by (rule span_mono [rotated]) auto
  next
    assume "w \<in> xor_row v ` gf2_span n S"
    then obtain w' where "w' \<in> gf2_span n S" "w = xor_row v w'" by auto
    then show ?thesis
      by (auto intro!: gf2_span.span_add intro: span_mono [of S "insert v S"])
  qed
qed

lemma span_card_le:
  assumes "finite S" and "\<forall>u\<in>S. length u = n"
  shows "finite (gf2_span n S) \<and> card (gf2_span n S) \<le> 2 ^ card S"
  using assms
proof (induction rule: finite_induct)
  case empty
  then show ?case by (simp add: span_empty)
next
  case (insert v S)
  then have ih: "finite (gf2_span n S)" "card (gf2_span n S) \<le> 2 ^ card S" by auto
  have eq: "gf2_span n (insert v S) = gf2_span n S \<union> xor_row v ` gf2_span n S"
    using insert.prems by (rule span_insert)
  have "card (gf2_span n (insert v S)) \<le> card (gf2_span n S) + card (xor_row v ` gf2_span n S)"
    unfolding eq by (rule card_Un_le)
  also have "\<dots> \<le> card (gf2_span n S) + card (gf2_span n S)"
    using ih(1) by (simp add: card_image_le)
  also have "\<dots> \<le> 2 ^ card (insert v S)"
    using ih(2) insert.hyps by simp
  finally show ?case using ih(1) unfolding eq by simp
qed

lemma span_subseq_sum:
  assumes "\<forall>u\<in>set vs. length u = n" and "w \<in> gf2_span n (set vs)"
  shows "\<exists>ws\<in>set (subseqs vs). w = xor_all n ws"
  using assms
proof (induction vs arbitrary: w)
  case Nil
  then show ?case by (simp add: span_empty)
next
  case (Cons v vs)
  then have len: "\<forall>u\<in>insert v (set vs). length u = n" and lenS: "\<forall>u\<in>set vs. length u = n"
    by auto
  from Cons.prems(2) have "w \<in> gf2_span n (set vs) \<union> xor_row v ` gf2_span n (set vs)"
    using span_insert [OF len] by simp
  then show ?case
  proof
    assume "w \<in> gf2_span n (set vs)"
    from Cons.IH [OF lenS this] show ?thesis by (auto simp: Let_def)
  next
    assume "w \<in> xor_row v ` gf2_span n (set vs)"
    then obtain w' where w': "w' \<in> gf2_span n (set vs)" "w = xor_row v w'" by auto
    from Cons.IH [OF lenS w'(1)] obtain ws where "ws \<in> set (subseqs vs)" "w' = xor_all n ws"
      by auto
    then have "v # ws \<in> set (subseqs (v # vs))" "w = xor_all n (v # ws)"
      using w'(2) by (auto simp: Let_def)
    then show ?thesis by blast
  qed
qed

lemma independent_Cons:
  assumes "gf2_independent n (v # vs)" and "\<forall>u\<in>set (v # vs). length u = n"
  shows "gf2_independent n vs" and "v \<notin> gf2_span n (set vs)"
proof -
  show "gf2_independent n vs"
    using assms(1) by (auto simp: gf2_independent_def Let_def)
  show "v \<notin> gf2_span n (set vs)"
  proof
    assume "v \<in> gf2_span n (set vs)"
    with assms(2) obtain ws where ws: "ws \<in> set (subseqs vs)" "v = xor_all n ws"
      using span_subseq_sum [of vs n v] by auto
    then have "v # ws \<in> set (subseqs (v # vs))" by (auto simp: Let_def)
    moreover have "xor_all n (v # ws) = replicate n 0"
      using ws(2) assms(2) by (simp add: xor_row_self)
    ultimately show False using assms(1) by (auto simp: gf2_independent_def)
  qed
qed

lemma independent_span_card:
  assumes "gf2_independent n vs" and "\<forall>u\<in>set vs. length u = n"
  shows "card (gf2_span n (set vs)) = 2 ^ length vs"
  using assms
proof (induction vs)
  case Nil
  then show ?case by (simp add: span_empty)
next
  case (Cons v vs)
  let ?S = "gf2_span n (set vs)"
  from Cons.prems have len: "\<forall>u\<in>insert v (set vs). length u = n"
    and lenS: "\<forall>u\<in>set vs. length u = n" and lv: "length v = n" by auto
  from independent_Cons [OF Cons.prems] have ind: "gf2_independent n vs" and notin: "v \<notin> ?S"
    by auto
  from Cons.IH [OF ind lenS] have ih: "card ?S = 2 ^ length vs" .
  have fin: "finite ?S" using span_card_le [of "set vs" n] lenS by simp
  have eq: "gf2_span n (set (v # vs)) = ?S \<union> xor_row v ` ?S"
    using span_insert [OF len] by simp
  have inj: "inj_on (xor_row v) ?S"
  proof (rule inj_onI)
    fix a b assume a: "a \<in> ?S" and b: "b \<in> ?S" and e: "xor_row v a = xor_row v b"
    have "length a = n" "length b = n" using a b lenS by (auto intro: span_length)
    then have ca: "xor_row v (xor_row v a) = a" and cb: "xor_row v (xor_row v b) = b"
      using lv by (simp_all add: xor_row_cancel)
    have "a = xor_row v (xor_row v a)" by (simp only: ca)
    also have "\<dots> = xor_row v (xor_row v b)" by (simp only: e)
    also have "\<dots> = b" by (simp only: cb)
    finally show "a = b" .
  qed
  have disj: "?S \<inter> xor_row v ` ?S = {}"
  proof (rule ccontr)
    assume "?S \<inter> xor_row v ` ?S \<noteq> {}"
    then obtain w w' where w: "w \<in> ?S" "w' \<in> ?S" "w = xor_row v w'" by auto
    have lw': "length w' = n" using w(2) lenS by (auto intro: span_length)
    have "xor_row w' w \<in> ?S" using lenS w(2,1) by (rule span_xor)
    moreover have "xor_row w' w = v"
    proof -
      have "xor_row w' (xor_row v w') = xor_row w' (xor_row w' v)"
        by (simp only: xor_row_commute [of v w'])
      also have "\<dots> = v" using lv lw' by (simp add: xor_row_cancel)
      finally show ?thesis unfolding w(3) .
    qed
    ultimately show False using notin by simp
  qed
  have "card (gf2_span n (set (v # vs))) = card ?S + card (xor_row v ` ?S)"
    unfolding eq using fin disj by (simp add: card_Un_disjoint)
  also have "\<dots> = 2 ^ length (v # vs)"
    using ih inj by (simp add: card_image)
  finally show ?case .
qed

section \<open>Forward elimination reaches a row echelon form\<close>

text \<open>
  On rows of \<open>n\<close> bits no read fails, every step keeps the invariant \<open>echelon\<close>, and the
  row space stays the same.
\<close>

lemma bitmat_nth: "bitmat r n A \<Longrightarrow> i < r \<Longrightarrow> bitvec n (A ! i)"
  by (auto simp: bitmat_def)

lemma bitmat_len: "bitmat r n A \<Longrightarrow> \<forall>v\<in>set A. length v = n"
  by (auto simp: bitmat_def bitvec_def)

lemma bitmatI: "length A = r \<Longrightarrow> (\<And>i. i < r \<Longrightarrow> bitvec n (A ! i)) \<Longrightarrow> bitmat r n A"
  unfolding bitmat_def by (metis in_set_conv_nth)

lemma cell_ok: "bitmat r n A \<Longrightarrow> i < r \<Longrightarrow> j < n \<Longrightarrow> cell A i j = Inr (A ! i ! j)"
  by (auto simp: cell_def getitem_def bitmat_def bitvec_def)

lemma find_pivot_ok:
  assumes "bitmat r n A" and "col < n" and "\<forall>i\<in>set rows. i < r"
  shows "find_pivot A col rows = Inr (find (\<lambda>i. A ! i ! col = 1) rows)"
  using assms(3)
proof (induction rows)
  case Nil
  then show ?case by simp
next
  case (Cons i rows)
  then show ?case using cell_ok [OF assms(1) _ assms(2), of i] by simp
qed

lemma find_SomeD: "find P xs = Some x \<Longrightarrow> x \<in> set xs \<and> P x"
  by (induction xs) (auto split: if_splits)

lemma find_NoneD: "find P xs = None \<Longrightarrow> x \<in> set xs \<Longrightarrow> \<not> P x"
  by (induction xs) (auto split: if_splits)

lemma eliminate_ok:
  assumes "bitmat r n A" and "col < n" and "rank < r" and "distinct rows"
    and "\<forall>i\<in>set rows. i < r \<and> i \<noteq> rank"
  shows "\<exists>A'. eliminate col rank rows A = Inr A' \<and> bitmat r n A'
          \<and> (\<forall>i<r. A' ! i = (if i \<in> set rows \<and> A ! i ! col = 1
                                then xor_row (A ! i) (A ! rank) else A ! i))"
  using assms(1,4,5)
proof (induction rows arbitrary: A)
  case Nil
  then show ?case by simp
next
  case (Cons row rows)
  let ?A1 = "if A ! row ! col = 1 then A[row := xor_row (A ! row) (A ! rank)] else A"
  from Cons.prems have row: "row < r" "row \<noteq> rank" "row \<notin> set rows" by auto
  have lenA: "length A = r" using Cons.prems(1) by (simp add: bitmat_def)
  have bx: "bitvec n (xor_row (A ! row) (A ! rank))"
    using Cons.prems(1) row(1) assms(3) by (intro bitvec_xor_row bitmat_nth)
  have bm1: "bitmat r n ?A1"
  proof (rule bitmatI)
    show "length ?A1 = r" using lenA by simp
    fix i assume "i < r"
    then show "bitvec n (?A1 ! i)"
      using bx bitmat_nth [OF Cons.prems(1)] lenA row(1) by (auto simp: nth_list_update)
  qed
  have step: "eliminate col rank (row # rows) A = eliminate col rank rows ?A1"
    using cell_ok [OF Cons.prems(1) row(1) assms(2)] by simp
  from Cons.IH [OF bm1] Cons.prems obtain A' where A': "eliminate col rank rows ?A1 = Inr A'"
    "bitmat r n A'"
    "\<forall>i<r. A' ! i = (if i \<in> set rows \<and> ?A1 ! i ! col = 1
                                then xor_row (?A1 ! i) (?A1 ! rank) else ?A1 ! i)"
    by auto
  have "A' ! i = (if i \<in> set (row # rows) \<and> A ! i ! col = 1
                                then xor_row (A ! i) (A ! rank) else A ! i)" if "i < r" for i
  proof (cases "i = row")
    case True
    then show ?thesis using A'(3) that row lenA by auto
  next
    case False
    then have "?A1 ! i = A ! i" "?A1 ! rank = A ! rank" using row(2) by auto
    then show ?thesis using A'(3) that False by auto
  qed
  with A'(1,2) step show ?case by auto
qed

lemma swap_rows_bitmat:
  assumes "bitmat r n A" and "p < r" and "k < r"
  shows "bitmat r n (swap_rows A p k)"
proof (rule bitmatI)
  show "length (swap_rows A p k) = r" using assms(1) by (simp add: swap_rows_def bitmat_def)
  fix i assume "i < r"
  then show "bitvec n (swap_rows A p k ! i)"
    using assms bitmat_nth [OF assms(1)]
    by (auto simp: swap_rows_def nth_list_update bitmat_def)
qed

lemma swap_rows_nth:
  assumes "length A = r" and "p < r" and "k < r" and "i < r"
  shows "swap_rows A p k ! i = (if i = k then A ! p else if i = p then A ! k else A ! i)"
  using assms by (auto simp: swap_rows_def nth_list_update)

lemma swap_rows_set:
  assumes "p < length A" and "k < length A"
  shows "set (swap_rows A p k) = set A"
  using assms unfolding swap_rows_def by (rule set_swap)

lemma row_equiv_refl: "\<forall>v\<in>set A. length v = n \<Longrightarrow> row_equiv n A A"
  by (auto simp: row_equiv_def intro: span_gen)

lemma row_equiv_trans:
  assumes "row_equiv n A B" and "row_equiv n B C"
    and "\<forall>v\<in>set A. length v = n" and "\<forall>v\<in>set C. length v = n"
  shows "row_equiv n A C"
proof -
  have "set A \<subseteq> gf2_span n (set C)"
    using assms(1,2,4) unfolding row_equiv_def
    by (meson span_subset subset_iff)
  moreover have "set C \<subseteq> gf2_span n (set A)"
    using assms(1,2,3) unfolding row_equiv_def
    by (meson span_subset subset_iff)
  ultimately show ?thesis by (simp add: row_equiv_def)
qed

lemma xor_row_cancel_right: "length a = length b \<Longrightarrow> xor_row (xor_row a b) b = a"
  by (simp add: list_eq_iff_nth_eq xor_row_def xor.assoc)

lemma eliminate_row_equiv:
  assumes b1: "bitmat r n A1" and b2: "bitmat r n A2" and rank: "rank < r"
    and char: "\<forall>i<r. A2 ! i = (if P i then xor_row (A1 ! i) (A1 ! rank) else A1 ! i)"
    and nP: "\<not> P rank"
  shows "row_equiv n A1 A2"
proof -
  have l1: "\<forall>v\<in>set A1. length v = n" and l2: "\<forall>v\<in>set A2. length v = n"
    using b1 b2 by (auto dest: bitmat_len)
  have len: "length A1 = r" "length A2 = r" using b1 b2 by (auto simp: bitmat_def)
  have rk: "A2 ! rank = A1 ! rank" using char rank nP by simp
  have m1: "A1 ! i \<in> set A1" and m2: "A2 ! i \<in> set A2" if "i < r" for i
    using that len by auto
  have g1: "A1 ! i \<in> gf2_span n (set A1)" and g2: "A2 ! i \<in> gf2_span n (set A2)" if "i < r" for i
    using m1 [OF that] m2 [OF that] l1 l2 by (auto intro: span_gen)
  have a: "A2 ! i \<in> gf2_span n (set A1)" if "i < r" for i
  proof (cases "P i")
    case True
    then have "A2 ! i = xor_row (A1 ! i) (A1 ! rank)" using char that by simp
    then show ?thesis using span_xor [OF l1 g1 [OF that] g1 [OF rank]] by simp
  next
    case False
    then show ?thesis using char that g1 [OF that] by simp
  qed
  have b: "A1 ! i \<in> gf2_span n (set A2)" if "i < r" for i
  proof (cases "P i")
    case True
    then have e: "A2 ! i = xor_row (A1 ! i) (A1 ! rank)" using char that by simp
    have "length (A1 ! i) = length (A1 ! rank)"
      using l1 m1 [OF that] m1 [OF rank] by simp
    then have "A1 ! i = xor_row (A2 ! i) (A2 ! rank)"
      unfolding e rk by (simp add: xor_row_cancel_right)
    then show ?thesis using span_xor [OF l2 g2 [OF that] g2 [OF rank]] by simp
  next
    case False
    then show ?thesis using char that g2 [OF that] by simp
  qed
  show ?thesis
    unfolding row_equiv_def using a b len by (auto simp: in_set_conv_nth)
qed

lemma echelon_skip:
  assumes ech: "echelon r n k (A, rank, pivs)" and k: "k < n"
    and none: "find (\<lambda>i. A ! i ! k = 1) [rank..<r] = None"
  shows "echelon r n (Suc k) (A, rank, pivs)"
proof -
  from ech have bm: "bitmat r n A"
    and z: "\<And>i j. rank \<le> i \<Longrightarrow> i < r \<Longrightarrow> j < k \<Longrightarrow> A ! i ! j = 0"
    and rest: "rank \<le> r" "length pivs = rank" "sorted_wrt (<) pivs" "\<forall>p\<in>set pivs. p < k"
      "\<forall>i<rank. A ! i ! (pivs ! i) = 1 \<and> (\<forall>j<pivs ! i. A ! i ! j = 0)"
    unfolding echelon_def prod.case by blast+
  have "A ! i ! j = 0" if "rank \<le> i" "i < r" "j < Suc k" for i j
  proof (cases "j = k")
    case True
    have "A ! i ! k \<noteq> 1" using find_NoneD [OF none, of i] that by simp
    moreover have "A ! i ! k = 0 \<or> A ! i ! k = 1"
      using bitmat_nth [OF bm that(2)] k by (rule bitvec_nth)
    ultimately show ?thesis using True by simp
  next
    case False
    with that z show ?thesis by simp
  qed
  moreover have "\<forall>p\<in>set pivs. p < Suc k" using rest(4) by auto
  ultimately show ?thesis
    unfolding echelon_def prod.case using bm rest by blast
qed

lemma echelon_pivot:
  assumes ech: "echelon r n k (A, rank, pivs)" and rank: "rank < r" and k: "k < n"
    and some: "find (\<lambda>i. A ! i ! k = 1) [rank..<r] = Some pivot"
  shows "\<exists>A2. eliminate k rank [rank + 1..<r]
                 (if pivot \<noteq> rank then swap_rows A pivot rank else A) = Inr A2
           \<and> echelon r n (Suc k) (A2, rank + 1, pivs @ [k]) \<and> row_equiv n A A2"
proof -
  let ?A1 = "if pivot \<noteq> rank then swap_rows A pivot rank else A"
  from ech have bm: "bitmat r n A"
    and z: "\<And>i j. rank \<le> i \<Longrightarrow> i < r \<Longrightarrow> j < k \<Longrightarrow> A ! i ! j = 0"
    and lp: "length pivs = rank" and so: "sorted_wrt (<) pivs" and pk: "\<forall>p\<in>set pivs. p < k"
    and lead: "\<And>i. i < rank \<Longrightarrow> A ! i ! (pivs ! i) = 1 \<and> (\<forall>j<pivs ! i. A ! i ! j = 0)"
    unfolding echelon_def prod.case by blast+
  have lenA: "length A = r" using bm by (simp add: bitmat_def)
  from find_SomeD [OF some] have pv: "rank \<le> pivot" "pivot < r" "A ! pivot ! k = 1" by auto
  have bm1: "bitmat r n ?A1" using bm pv rank by (simp add: swap_rows_bitmat)
  have n1: "?A1 ! i = (if i = rank then A ! pivot else if i = pivot then A ! rank else A ! i)"
    if "i < r" for i
    using swap_rows_nth [OF lenA pv(2) rank that] by auto
  have set1: "set ?A1 = set A" using swap_rows_set [of pivot A rank] pv rank lenA by simp
  from eliminate_ok [OF bm1 k rank, of "[rank + 1..<r]"]
  obtain A2 where el: "eliminate k rank [rank + 1..<r] ?A1 = Inr A2" and bm2: "bitmat r n A2"
    and ch: "\<forall>i<r. A2 ! i = (if i \<in> set [rank + 1..<r] \<and> ?A1 ! i ! k = 1
                                then xor_row (?A1 ! i) (?A1 ! rank) else ?A1 ! i)"
    by auto
  have re: "row_equiv n A A2"
  proof -
    have "row_equiv n ?A1 A2"
      using bm1 bm2 rank ch by (rule eliminate_row_equiv) simp
    then show ?thesis unfolding row_equiv_def set1 .
  qed
  have low: "A2 ! i = A ! i" if "i < rank" for i
    using ch n1 [of i] that rank pv(1) by auto
  have mid: "A2 ! rank = A ! pivot"
    using ch n1 [of rank] rank by auto
  have zero1: "?A1 ! i ! j = 0" if "rank \<le> i" "i < r" "j < k" for i j
    using n1 [OF that(2)] z [of i j] z [of pivot j] z [of rank j] that pv rank by auto
  have b1: "bitvec n (?A1 ! i)" if "i < r" for i using bitmat_nth [OF bm1 that] .
  have high: "A2 ! i ! j = 0" if "rank + 1 \<le> i" "i < r" "j < Suc k" for i j
  proof -
    have jn: "j < n" using that(3) k by simp
    have li: "j < length (?A1 ! i)" "j < length (?A1 ! rank)"
      using b1 [OF that(2)] b1 [OF rank] jn by (simp_all add: bitvec_def)
    have pk1: "?A1 ! rank ! k = 1" using n1 [OF rank] pv(3) by simp
    show ?thesis
    proof (cases "?A1 ! i ! k = 1")
      case True
      then have e: "A2 ! i = xor_row (?A1 ! i) (?A1 ! rank)" using ch that by simp
      have "A2 ! i ! j = ?A1 ! i ! j XOR ?A1 ! rank ! j"
        unfolding e using li by (rule xor_row_nth)
      also have "\<dots> = 0"
      proof (cases "j = k")
        case True
        then show ?thesis using \<open>?A1 ! i ! k = 1\<close> pk1 by simp
      next
        case False
        then have "j < k" using that(3) by simp
        then show ?thesis using zero1 [of i j] zero1 [of rank j] that rank by simp
      qed
      finally show ?thesis .
    next
      case False
      then have e: "A2 ! i = ?A1 ! i" using ch that by simp
      show ?thesis
      proof (cases "j = k")
        case True
        have "?A1 ! i ! k = 0 \<or> ?A1 ! i ! k = 1" using b1 [OF that(2)] k by (rule bitvec_nth)
        with False show ?thesis unfolding e True by simp
      next
        case False
        then have "j < k" using that(3) by simp
        then show ?thesis unfolding e using zero1 [of i j] that by simp
      qed
    qed
  qed
  have lead2: "A2 ! i ! ((pivs @ [k]) ! i) = 1 \<and> (\<forall>j<(pivs @ [k]) ! i. A2 ! i ! j = 0)"
    if "i < rank + 1" for i
  proof (cases "i < rank")
    case True
    then show ?thesis using lead [OF True] low [OF True] lp by (simp add: nth_append)
  next
    case False
    then have "i = rank" using that by simp
    then show ?thesis using mid pv z [of pivot] lp by (simp add: nth_append)
  qed
  have "sorted_wrt (<) (pivs @ [k])" using so pk by (simp add: sorted_wrt_append)
  moreover have "\<forall>p\<in>set (pivs @ [k]). p < Suc k" using pk by auto
  moreover have "rank + 1 \<le> r" "length (pivs @ [k]) = rank + 1" using rank lp by auto
  ultimately have "echelon r n (Suc k) (A2, rank + 1, pivs @ [k])"
    unfolding echelon_def prod.case using bm2 lead2 high by blast
  with el re show ?thesis by blast
qed

lemma echelon_full:
  assumes "echelon r n k (A, r, pivs)" and "k \<le> m"
  shows "echelon r n m (A, r, pivs)"
proof -
  from assms(1) have parts: "bitmat r n A" "length pivs = r" "sorted_wrt (<) pivs"
      "\<forall>i<r. A ! i ! (pivs ! i) = 1 \<and> (\<forall>j<pivs ! i. A ! i ! j = 0)"
    and pk: "\<forall>p\<in>set pivs. p < k"
    unfolding echelon_def prod.case by blast+
  have "\<forall>p\<in>set pivs. p < m" using pk assms(2) by auto
  moreover have "\<forall>i. r \<le> i \<and> i < r \<longrightarrow> (\<forall>j<m. A ! i ! j = 0)" by simp
  moreover have "r \<le> r" by simp
  ultimately show ?thesis unfolding echelon_def prod.case using parts by blast
qed

lemma forward_loop_skip:
  "find_pivot A k [rank..<r] = Inr None
     \<Longrightarrow> forward_loop r (k # cols) (A, rank, pivs) = forward_loop r cols (A, rank, pivs)"
  by simp

lemma forward_loop_pivot:
  "find_pivot A k [rank..<r] = Inr (Some pivot)
     \<Longrightarrow> eliminate k rank [rank + 1..<r]
           (if pivot \<noteq> rank then swap_rows A pivot rank else A) = Inr A2
     \<Longrightarrow> forward_loop r (k # cols) (A, rank, pivs) =
           (if rank + 1 = r then Inr (A2, rank + 1, pivs @ [k])
            else forward_loop r cols (A2, rank + 1, pivs @ [k]))"
  by simp

lemma forward_loop_ok:
  assumes "echelon r n k (A, rank, pivs)" and "rank < r" and "k \<le> m" and "m \<le> n"
  shows "\<exists>A' rank' pivs'. forward_loop r [k..<m] (A, rank, pivs) = Inr (A', rank', pivs')
           \<and> echelon r n m (A', rank', pivs') \<and> row_equiv n A A'"
  using assms(1,2,3)
proof (induction "m - k" arbitrary: k A rank pivs)
  case 0
  then have km: "k = m" by simp
  have "row_equiv n A A"
    using 0(2) by (intro row_equiv_refl bitmat_len [of r]) (simp add: echelon_def)
  moreover have "forward_loop r [k..<m] (A, rank, pivs) = Inr (A, rank, pivs)"
    unfolding km by simp
  moreover have "echelon r n m (A, rank, pivs)" using 0(2) unfolding km .
  ultimately show ?case by blast
next
  case (Suc d)
  then have km: "k < m" by simp
  then have kn: "k < n" using assms(4) by simp
  have upt: "[k..<m] = k # [Suc k..<m]" using km by (simp add: upt_conv_Cons)
  have d: "d = m - Suc k" using Suc.hyps(2) by simp
  have skm: "Suc k \<le> m" using km by simp
  have bm: "bitmat r n A" using Suc.prems(1) by (simp add: echelon_def)
  have lA: "\<forall>v\<in>set A. length v = n" using bm by (rule bitmat_len)
  have fp: "find_pivot A k [rank..<r] = Inr (find (\<lambda>i. A ! i ! k = 1) [rank..<r])"
    using bm kn by (rule find_pivot_ok) simp
  show ?case
  proof (cases "find (\<lambda>i. A ! i ! k = 1) [rank..<r]")
    case None
    have e: "echelon r n (Suc k) (A, rank, pivs)"
      using Suc.prems(1) kn None by (rule echelon_skip)
    have st: "forward_loop r [k..<m] (A, rank, pivs) = forward_loop r [Suc k..<m] (A, rank, pivs)"
      unfolding upt using fp None by (intro forward_loop_skip) simp
    from Suc.hyps(1) [OF d e Suc.prems(2) skm] show ?thesis
      unfolding st .
  next
    case (Some pivot)
    from echelon_pivot [OF Suc.prems(1,2) kn Some]
    obtain A2 where el: "eliminate k rank [rank + 1..<r]
                 (if pivot \<noteq> rank then swap_rows A pivot rank else A) = Inr A2"
      and e: "echelon r n (Suc k) (A2, rank + 1, pivs @ [k])" and re: "row_equiv n A A2"
      by blast
    have fp': "find_pivot A k [rank..<r] = Inr (Some pivot)" using fp Some by simp
    have st: "forward_loop r [k..<m] (A, rank, pivs) =
           (if rank + 1 = r then Inr (A2, rank + 1, pivs @ [k])
            else forward_loop r [Suc k..<m] (A2, rank + 1, pivs @ [k]))"
      unfolding upt using fp' el by (rule forward_loop_pivot)
    show ?thesis
    proof (cases "rank + 1 = r")
      case True
      have "echelon r n (Suc k) (A2, r, pivs @ [k])"
        using e unfolding True .
      then have "echelon r n m (A2, r, pivs @ [k])"
        using skm by (rule echelon_full)
      then have "echelon r n m (A2, rank + 1, pivs @ [k])"
        unfolding True .
      moreover have "forward_loop r [k..<m] (A, rank, pivs) = Inr (A2, rank + 1, pivs @ [k])"
        unfolding st using True by simp
      ultimately show ?thesis using re by blast
    next
      case False
      then have lt: "rank + 1 < r" using Suc.prems(2) by simp
      from Suc.hyps(1) [OF d e lt skm]
      obtain A' rank' pivs' where r: "forward_loop r [Suc k..<m] (A2, rank + 1, pivs @ [k])
                 = Inr (A', rank', pivs')" "echelon r n m (A', rank', pivs')" "row_equiv n A2 A'"
        by blast
      have l': "\<forall>v\<in>set A'. length v = n"
        using r(2) by (intro bitmat_len [of r]) (simp add: echelon_def)
      have "row_equiv n A A'" using re r(3) lA l' by (rule row_equiv_trans)
      moreover have "forward_loop r [k..<m] (A, rank, pivs) = Inr (A', rank', pivs')"
        unfolding st using False r(1) by simp
      ultimately show ?thesis using r(2) by blast
    qed
  qed
qed

lemma rank_loop_forward:
  "rank_loop r cols (A, rank) =
     (case forward_loop r cols (A, rank, pivs) of
        Inl e \<Rightarrow> Inl e
      | Inr (A', rank', pivs') \<Rightarrow> Inr (A', rank'))"
proof (induction cols arbitrary: A rank pivs)
  case Nil
  then show ?case by simp
next
  case (Cons col cols)
  show ?case
  proof (cases "find_pivot A col [rank..<r]")
    case (Inl e)
    then show ?thesis by simp
  next
    case (Inr found)
    show ?thesis
    proof (cases found)
      case None
      with Inr show ?thesis using Cons.IH [of A rank pivs] by simp
    next
      case (Some pivot)
      show ?thesis
      proof (cases "eliminate col rank [rank + 1..<r]
                      (if pivot \<noteq> rank then swap_rows A pivot rank else A)")
        case (Inl e)
        then show ?thesis using \<open>find_pivot A col [rank..<r] = Inr found\<close> Some by simp
      next
        case el: (Inr A2)
        show ?thesis
          using \<open>find_pivot A col [rank..<r] = Inr found\<close> Some el
            Cons.IH [of A2 "rank + 1" "pivs @ [col]"]
          by simp
      qed
    qed
  qed
qed

section \<open>Bits and integers\<close>

lemma int_to_bits_Suc:
  "int_to_bits x (Suc n) = int_to_bits (x div 2) n @ [x mod 2]"
proof -
  have "rev [0..<Suc n] = rev (map Suc [0..<n]) @ [0]"
    by (simp add: upt_conv_Cons [of 0 "Suc n"] map_Suc_upt del: upt_Suc)
  then have "int_to_bits x (Suc n)
      = map (\<lambda>i. drop_bit (Suc i) x AND 1) (rev [0..<n]) @ [drop_bit 0 x AND 1]"
    unfolding int_to_bits_def by (simp add: rev_map comp_def)
  also have "\<dots> = int_to_bits (x div 2) n @ [x mod 2]"
    unfolding int_to_bits_def by (simp add: drop_bit_Suc and_one_eq)
  finally show ?thesis .
qed

lemma int_to_bits_0: "int_to_bits x 0 = []"
  by (simp add: int_to_bits_def)

lemma length_int_to_bits: "length (int_to_bits x n) = n"
  by (simp add: int_to_bits_def)

lemma bitvec_append1: "bitvec n v \<Longrightarrow> b = 0 \<or> b = 1 \<Longrightarrow> bitvec (Suc n) (v @ [b])"
  by (auto simp: bitvec_def)

lemma bitvec_int_to_bits: "bitvec n (int_to_bits x n)"
proof (induction n arbitrary: x)
  case 0
  then show ?case by (simp add: int_to_bits_0 bitvec_def)
next
  case (Suc n)
  have "x mod 2 = 0 \<or> x mod 2 = 1" by auto
  with Suc [of "x div 2"] show ?case
    unfolding int_to_bits_Suc by (rule bitvec_append1)
qed

lemma bits_to_int_snoc:
  "b = 0 \<or> b = 1 \<Longrightarrow> bits_to_int (bs @ [b]) = 2 * bits_to_int bs + b"
  by (auto simp: bits_to_int_def or_one_eq push_bit_eq_mult)

lemma bits_to_int_Nil: "bits_to_int [] = 0"
  by (simp add: bits_to_int_def)

lemma bitvec_snocD: "bitvec n (bs @ [b]) \<Longrightarrow> (b = 0 \<or> b = 1) \<and> bitvec (n - 1) bs \<and> n = Suc (length bs)"
  by (auto simp: bitvec_def)

lemma bits_to_int_bounds: "bitvec n bs \<Longrightarrow> 0 \<le> bits_to_int bs \<and> bits_to_int bs < 2 ^ n"
proof (induction bs arbitrary: n rule: rev_induct)
  case Nil
  then show ?case by (simp add: bits_to_int_Nil)
next
  case (snoc b bs)
  from bitvec_snocD [OF snoc.prems] have b: "b = 0 \<or> b = 1" and v: "bitvec (n - 1) bs"
    and n: "n = Suc (length bs)" by auto
  from snoc.IH [OF v] have "0 \<le> bits_to_int bs" "bits_to_int bs < 2 ^ (n - 1)" by auto
  moreover have "(2::int) ^ n = 2 * 2 ^ (n - 1)" using n by simp
  ultimately show ?case using b by (auto simp: bits_to_int_snoc)
qed

lemma int_to_bits_bits_to_int: "bitvec n bs \<Longrightarrow> int_to_bits (bits_to_int bs) n = bs"
proof (induction bs arbitrary: n rule: rev_induct)
  case Nil
  then show ?case by (simp add: bitvec_def int_to_bits_0)
next
  case (snoc b bs)
  from bitvec_snocD [OF snoc.prems] have b: "b = 0 \<or> b = 1" and v: "bitvec (n - 1) bs"
    and n: "n = Suc (length bs)" by auto
  have m: "n - 1 = length bs" using n by simp
  have d: "(2 * bits_to_int bs + b) div 2 = bits_to_int bs" using b by auto
  have r: "(2 * bits_to_int bs + b) mod 2 = b" using b by auto
  have "int_to_bits (bits_to_int (bs @ [b])) (Suc (length bs))
          = int_to_bits (bits_to_int bs) (length bs) @ [b]"
    unfolding bits_to_int_snoc [OF b] int_to_bits_Suc d r ..
  then show ?case using snoc.IH [OF v] unfolding n m by simp
qed

lemma bits_to_int_int_to_bits:
  "0 \<le> x \<Longrightarrow> x < 2 ^ n \<Longrightarrow> bits_to_int (int_to_bits x n) = x"
proof (induction n arbitrary: x)
  case 0
  then show ?case by (simp add: int_to_bits_0 bits_to_int_Nil)
next
  case (Suc n)
  have "0 \<le> x div 2" "x div 2 < 2 ^ n" using Suc.prems by auto
  then have ih: "bits_to_int (int_to_bits (x div 2) n) = x div 2" by (rule Suc.IH)
  have "x mod 2 = 0 \<or> x mod 2 = 1" by auto
  then have "bits_to_int (int_to_bits x (Suc n)) = 2 * (x div 2) + x mod 2"
    unfolding int_to_bits_Suc by (simp only: bits_to_int_snoc ih)
  then show ?case by simp
qed

lemma int_to_bits_zero: "int_to_bits 0 n = replicate n 0"
  by (induction n) (simp_all add: int_to_bits_0 int_to_bits_Suc replicate_append_same)

lemma bits_to_int_zero_iff:
  assumes "bitvec n bs"
  shows "bits_to_int bs = 0 \<longleftrightarrow> bs = replicate n 0"
proof
  assume "bits_to_int bs = 0"
  then have "int_to_bits (bits_to_int bs) n = replicate n 0" by (simp add: int_to_bits_zero)
  then show "bs = replicate n 0" using int_to_bits_bits_to_int [OF assms] by simp
next
  assume "bs = replicate n 0"
  then have "bs = int_to_bits 0 n" by (simp add: int_to_bits_zero)
  then show "bits_to_int bs = 0" by (simp add: bits_to_int_int_to_bits)
qed

section \<open>Back-substitution\<close>

lemma getitem_ok: "j < length row \<Longrightarrow> getitem row j = Inr (row ! j)"
  by (simp add: getitem_def)

lemma first_one_ok:
  assumes "p < length row" and "row ! p = 1" and "\<forall>j. k \<le> j \<and> j < p \<longrightarrow> row ! j \<noteq> 1"
    and "k \<le> p" and "p < n"
  shows "first_one row [k..<n] = Inr (Some p)"
  using assms(3,4)
proof (induction "p - k" arbitrary: k)
  case 0
  then have "k = p" by simp
  then have "[k..<n] = p # [Suc p..<n]" using assms(5) by (simp add: upt_conv_Cons)
  then show ?case using assms(1,2) by (simp add: getitem_ok)
next
  case (Suc d)
  then have kp: "k < p" by simp
  then have upt: "[k..<n] = k # [Suc k..<n]" using assms(5) by (simp add: upt_conv_Cons)
  have nk: "row ! k \<noteq> 1" using Suc.prems(1) kp by simp
  have "first_one row [Suc k..<n] = Inr (Some p)"
    using Suc.hyps(2) Suc.prems kp by (intro Suc.hyps(1)) auto
  then show ?case unfolding upt using nk kp assms(1) by (simp add: getitem_ok)
qed

lemma rhs_loop_ok:
  assumes "length row = n" and "length s = n" and "k \<le> n"
  shows "rhs_loop row s [k..<n] acc = Inr (acc XOR gf2_dot (drop k row) (drop k s))"
  using assms(3)
proof (induction "n - k" arbitrary: k acc)
  case 0
  then show ?case using assms(1,2) by simp
next
  case (Suc d)
  then have kn: "k < n" by simp
  then have upt: "[k..<n] = k # [Suc k..<n]" by (simp add: upt_conv_Cons)
  have ih: "rhs_loop row s [Suc k..<n] (acc XOR (row ! k AND s ! k))
              = Inr ((acc XOR (row ! k AND s ! k)) XOR gf2_dot (drop (Suc k) row) (drop (Suc k) s))"
    using Suc.hyps(2) kn by (intro Suc.hyps(1)) auto
  have "gf2_dot (drop k row) (drop k s)
          = (row ! k AND s ! k) XOR gf2_dot (drop (Suc k) row) (drop (Suc k) s)"
    using kn assms(1,2) by (intro gf2_dot_drop_Suc) auto
  then show ?case unfolding upt using ih kn assms(1,2)
    by (simp add: getitem_ok xor.assoc)
qed

lemma bitvec_drop: "bitvec n v \<Longrightarrow> bitvec (n - k) (drop k v)"
  unfolding bitvec_def using set_drop_subset [of k v] by auto

lemma echelon_pivs_lt:
  assumes "sorted_wrt (<) pivs" and "i < j" and "j < length pivs"
  shows "pivs ! i < (pivs ! j :: nat)"
  using assms by (simp add: sorted_wrt_nth_less)

lemma back_step:
  assumes row: "bitvec n row" and s: "bitvec n s" and p: "p < n"
    and one: "row ! p = 1" and zero: "\<forall>j<p. row ! j = 0"
  shows "first_one row [0..<n] = Inr (Some p)"
    and "rhs_loop row s [p + 1..<n] 0
           = Inr (gf2_dot (drop (Suc p) row) (drop (Suc p) s))"
    and "bitvec n (s[p := gf2_dot (drop (Suc p) row) (drop (Suc p) s)])"
    and "gf2_dot row (s[p := gf2_dot (drop (Suc p) row) (drop (Suc p) s)]) = 0"
proof -
  let ?rhs = "gf2_dot (drop (Suc p) row) (drop (Suc p) s)"
  have lr: "length row = n" and ls: "length s = n" using row s by (simp_all add: bitvec_def)
  show "first_one row [0..<n] = Inr (Some p)"
    using zero one p lr by (intro first_one_ok) auto
  have "rhs_loop row s [Suc p..<n] 0 = Inr (0 XOR ?rhs)"
    using lr ls p by (intro rhs_loop_ok) auto
  then show "rhs_loop row s [p + 1..<n] 0 = Inr ?rhs" by simp
  have rb: "?rhs = 0 \<or> ?rhs = 1"
    using bitvec_drop [OF row, of "Suc p"] bitvec_drop [OF s, of "Suc p"] by (rule gf2_dot_bit)
  show "bitvec n (s[p := ?rhs])" using s rb by (rule bitvec_update)
  have "gf2_dot row (s[p := ?rhs]) = gf2_dot (drop p row) (drop p (s[p := ?rhs]))"
    using zero p lr ls by (intro gf2_dot_drop) auto
  also have "\<dots> = (row ! p AND (s[p := ?rhs]) ! p)
                  XOR gf2_dot (drop (Suc p) row) (drop (Suc p) (s[p := ?rhs]))"
    using p lr ls by (intro gf2_dot_drop_Suc) auto
  also have "\<dots> = (1 AND ?rhs) XOR ?rhs"
    using one p ls by (simp add: drop_update_cancel)
  also have "\<dots> = 0" using rb by auto
  finally show "gf2_dot row (s[p := ?rhs]) = 0" .
qed

lemma gf2_dot_update_before:
  assumes "\<forall>j<q. a ! j = 0" and "p < q" and "q \<le> length a" and "q \<le> length s"
  shows "gf2_dot a (s[p := x]) = gf2_dot a s"
proof -
  have "gf2_dot a (s[p := x]) = gf2_dot (drop q a) (drop q (s[p := x]))"
    using assms by (intro gf2_dot_drop) auto
  also have "\<dots> = gf2_dot (drop q a) (drop q s)"
    using assms(2) by (simp add: drop_update_cancel)
  also have "\<dots> = gf2_dot a s"
    using assms by (intro gf2_dot_drop [symmetric]) auto
  finally show ?thesis .
qed

lemma back_loop_ok:
  assumes ech: "echelon r n n (A, rank, pivs)"
    and s: "bitvec n s" and m: "m \<le> rank"
    and dn: "\<forall>i. m \<le> i \<and> i < rank \<longrightarrow> gf2_dot (A ! i) s = 0"
  shows "\<exists>s'. back_loop n A (rev [0..<m]) s = Inr s' \<and> bitvec n s'
           \<and> (\<forall>i<rank. gf2_dot (A ! i) s' = 0)
           \<and> (\<forall>j<n. j \<notin> set pivs \<longrightarrow> s' ! j = s ! j)"
  using s m dn
proof (induction m arbitrary: s)
  case 0
  then show ?case by simp
next
  case (Suc m)
  from ech have bm: "bitmat r n A" and rr: "rank \<le> r"
    and lp: "length pivs = rank" and so: "sorted_wrt (<) pivs" and pn: "\<forall>p\<in>set pivs. p < n"
    and lead: "\<And>i. i < rank \<Longrightarrow> A ! i ! (pivs ! i) = 1 \<and> (\<forall>j<pivs ! i. A ! i ! j = 0)"
    unfolding echelon_def prod.case by blast+
  have mr: "m < rank" using Suc.prems(2) by simp
  let ?row = "A ! m"
  let ?p = "pivs ! m"
  let ?rhs = "gf2_dot (drop (Suc ?p) ?row) (drop (Suc ?p) s)"
  let ?s1 = "s[?p := ?rhs]"
  have row: "bitvec n ?row" using bm mr rr by (intro bitmat_nth [of r]) auto
  have pmem: "?p \<in> set pivs" using mr lp by simp
  then have p: "?p < n" using pn by blast
  note bs = back_step [OF row Suc.prems(1) p conjunct1 [OF lead [OF mr]] conjunct2 [OF lead [OF mr]]]
  have step: "back_loop n A (rev [0..<Suc m]) s = back_loop n A (rev [0..<m]) ?s1"
    using bs(1,2) by simp
  have d1: "\<forall>i. m \<le> i \<and> i < rank \<longrightarrow> gf2_dot (A ! i) ?s1 = 0"
  proof (intro allI impI)
    fix i assume i: "m \<le> i \<and> i < rank"
    show "gf2_dot (A ! i) ?s1 = 0"
    proof (cases "i = m")
      case True
      then show ?thesis using bs(4) by simp
    next
      case False
      then have mi: "m < i" using i by simp
      have lt: "?p < pivs ! i" using so mi i lp by (simp add: sorted_wrt_nth_less)
      have ri: "bitvec n (A ! i)" using bm i rr by (intro bitmat_nth [of r]) auto
      have pin: "pivs ! i < n" using pn i lp by simp
      have "gf2_dot (A ! i) ?s1 = gf2_dot (A ! i) s"
        using conjunct2 [OF lead [of i]] i lt pin ri Suc.prems(1)
        by (intro gf2_dot_update_before [of "pivs ! i"]) (auto simp: bitvec_def)
      then show ?thesis using Suc.prems(3) i mi by simp
    qed
  qed
  from Suc.IH [OF bs(3) _ d1] mr
  obtain s' where s': "back_loop n A (rev [0..<m]) ?s1 = Inr s'" "bitvec n s'"
    "\<forall>i<rank. gf2_dot (A ! i) s' = 0" "\<forall>j<n. j \<notin> set pivs \<longrightarrow> s' ! j = ?s1 ! j"
    by auto
  have "\<forall>j<n. j \<notin> set pivs \<longrightarrow> s' ! j = s ! j"
    using s'(4) pmem by (metis nth_list_update_neq)
  with step s'(1,2,3) show ?case by auto
qed

lemma zero_rows_dot:
  assumes ech: "echelon r n n (A, rank, pivs)" and "rank \<le> i" and "i < r"
  shows "gf2_dot (A ! i) t = 0"
proof -
  from ech have bm: "bitmat r n A"
    and z: "\<forall>i. rank \<le> i \<and> i < r \<longrightarrow> (\<forall>j<n. A ! i ! j = 0)"
    unfolding echelon_def prod.case by blast+
  have "length (A ! i) = n" using bitmat_nth [OF bm assms(3)] by (simp add: bitvec_def)
  then have "\<forall>j<length (A ! i). A ! i ! j = 0" using z assms(2,3) by simp
  then show ?thesis by (rule gf2_dot_all_zero)
qed

lemma free_col_exists:
  assumes "length pivs < n"
  shows "\<exists>f rest. filter (\<lambda>col. col \<notin> set pivs) [0..<n] = f # rest \<and> f < n \<and> f \<notin> set pivs"
proof -
  have "card (set pivs) < n" using assms card_length [of pivs] by simp
  then have "\<not> {..<n} \<subseteq> set pivs"
    using card_mono [of "set pivs" "{..<n}"] by auto
  then obtain j where j: "j < n" "j \<notin> set pivs" by auto
  then have "filter (\<lambda>col. col \<notin> set pivs) [0..<n] \<noteq> []"
    by (auto simp: filter_empty_conv)
  then obtain f rest where fr: "filter (\<lambda>col. col \<notin> set pivs) [0..<n] = f # rest"
    by (cases "filter (\<lambda>col. col \<notin> set pivs) [0..<n]") auto
  then have "f \<in> set (filter (\<lambda>col. col \<notin> set pivs) [0..<n])" by simp
  then have "f < n \<and> f \<notin> set pivs" by auto
  with fr show ?thesis by blast
qed

section \<open>The solver returns a vector of the nullspace\<close>

lemma digit_val_01: "digit_val CHR ''0'' = 0" "digit_val CHR ''1'' = 1"
  by (simp_all add: digit_val_def)

lemma is_digit_01: "is_digit CHR ''0''" "is_digit CHR ''1''"
  by (simp_all add: is_digit_def)

lemma parse_row_bitstring:
  assumes "bitstring n m"
  shows "parse_row m = Inr (map digit_val m)" and "bitvec n (map digit_val m)"
proof -
  have "\<forall>ch\<in>set m. is_digit ch" using assms is_digit_01 by (auto simp: bitstring_def)
  then show "parse_row m = Inr (map digit_val m)" by (simp add: parse_row_def list_all_iff)
  show "bitvec n (map digit_val m)"
    using assms digit_val_01 by (auto simp: bitstring_def bitvec_def)
qed

lemma parse_rows_bitstrings:
  assumes "\<forall>m\<in>set ms. bitstring n m"
  shows "parse_rows ms = Inr (map (map digit_val) ms)"
  using assms
proof (induction ms)
  case Nil
  then show ?case by simp
next
  case (Cons m ms)
  then have "parse_row m = Inr (map digit_val m)" by (intro parse_row_bitstring(1) [of n]) simp
  moreover have "parse_rows ms = Inr (map (map digit_val) ms)" using Cons by simp
  ultimately show ?case by simp
qed

lemma bitmat_parsed:
  assumes "\<forall>m\<in>set ms. bitstring n m"
  shows "bitmat (length ms) n (map (map digit_val) ms)"
  using assms by (auto simp: bitmat_def parse_row_bitstring)

lemma np_array_bitmat: "bitmat r n A \<Longrightarrow> np_array A = Inr A"
proof -
  assume bm: "bitmat r n A"
  have "\<forall>row\<in>set A. length row = length (hd A)"
  proof (cases A)
    case Nil
    then show ?thesis by simp
  next
    case (Cons a A')
    then show ?thesis using bitmat_len [OF bm] by simp
  qed
  then show ?thesis by (simp add: np_array_def)
qed

lemma ncols_bitmat: "bitmat r n A \<Longrightarrow> 0 < r \<Longrightarrow> ncols A = n"
  by (cases A) (auto simp: bitmat_def bitvec_def ncols_def)

lemma echelon_init: "bitmat r n A \<Longrightarrow> echelon r n 0 (A, 0, [])"
  by (simp add: echelon_def)

lemma sorted_less_distinct: "sorted_wrt (<) (xs :: nat list) \<Longrightarrow> distinct xs"
  by (induction xs) auto

lemma echelon_rank_le:
  assumes "echelon r n k (A, rank, pivs)" and "k \<le> n"
  shows "rank \<le> n"
proof -
  from assms(1) have lp: "length pivs = rank" and so: "sorted_wrt (<) pivs"
    and pk: "\<forall>p\<in>set pivs. p < k"
    unfolding echelon_def prod.case by blast+
  have "card (set pivs) = rank" using sorted_less_distinct [OF so] lp distinct_card by fastforce
  moreover have "set pivs \<subseteq> {..<n}" using pk assms(2) by auto
  ultimately show ?thesis using card_mono [of "{..<n}" "set pivs"] by simp
qed

lemma forward_elimination_ok:
  assumes "bitmat r n A0" and "0 < r"
  shows "\<exists>A rank pivs. forward_elimination n A0 = Inr (A, rank, pivs)
           \<and> echelon r n n (A, rank, pivs) \<and> row_equiv n A0 A \<and> rank \<le> n"
proof -
  have len: "length A0 = r" using assms(1) by (simp add: bitmat_def)
  from forward_loop_ok [OF echelon_init [OF assms(1)] assms(2) le0 order_refl]
  obtain A rank pivs where f: "forward_loop r [0..<n] (A0, 0, []) = Inr (A, rank, pivs)"
    and e: "echelon r n n (A, rank, pivs)" and re: "row_equiv n A0 A"
    by auto
  have "rank \<le> n" using e by (rule echelon_rank_le) simp
  with f e re show ?thesis unfolding forward_elimination_def len by blast
qed

lemma nullspace_vector_full: "nullspace_vector n (A, n, pivs) = Inr 0"
  by (simp add: nullspace_vector_def)

lemma nullspace_vector_ok:
  assumes ech: "echelon r n n (A, rank, pivs)" and rn: "rank < n"
  shows "\<exists>f sb. f < n \<and> f \<notin> set pivs
           \<and> nullspace_vector n (A, rank, pivs) = Inr (bits_to_int sb)
           \<and> bitvec n sb \<and> (\<forall>row\<in>set A. gf2_dot row sb = 0)
           \<and> (\<forall>j<n. j \<notin> set pivs \<longrightarrow> sb ! j = (if j = f then 1 else 0))"
proof -
  from ech have bm: "bitmat r n A" and lp: "length pivs = rank" and rr: "rank \<le> r"
    unfolding echelon_def prod.case by blast+
  from free_col_exists [of pivs n] lp rn
  obtain f rest where fr: "filter (\<lambda>col. col \<notin> set pivs) [0..<n] = f # rest"
    and f: "f < n" "f \<notin> set pivs" by auto
  let ?s0 = "(replicate n 0)[f := 1::int]"
  have b0: "bitvec n ?s0" by (intro bitvec_update bitvec_replicate) simp
  from back_loop_ok [OF ech b0, of rank]
  obtain sb where sb: "back_loop n A (rev [0..<rank]) ?s0 = Inr sb" "bitvec n sb"
    "\<forall>i<rank. gf2_dot (A ! i) sb = 0" "\<forall>j<n. j \<notin> set pivs \<longrightarrow> sb ! j = ?s0 ! j"
    by auto
  have nv: "nullspace_vector n (A, rank, pivs) = Inr (bits_to_int sb)"
    using rn fr sb(1) by (simp add: nullspace_vector_def)
  have lenA: "length A = r" using bm by (simp add: bitmat_def)
  have "gf2_dot (A ! i) sb = 0" if "i < r" for i
  proof (cases "i < rank")
    case True
    then show ?thesis using sb(3) by simp
  next
    case False
    then show ?thesis using zero_rows_dot [OF ech _ that] by simp
  qed
  then have all: "\<forall>row\<in>set A. gf2_dot row sb = 0"
    using lenA by (auto simp: in_set_conv_nth)
  have "\<forall>j<n. j \<notin> set pivs \<longrightarrow> sb ! j = (if j = f then 1 else 0)"
    using sb(4) f(1) by (auto simp: nth_list_update)
  with f nv sb(2) all show ?thesis by blast
qed

lemma row_equiv_dot:
  assumes "row_equiv n A0 A" and "\<forall>v\<in>set A. length v = n" and "\<forall>row\<in>set A. gf2_dot row t = 0"
    and "row \<in> set A0"
  shows "gf2_dot row t = 0"
proof -
  have "row \<in> gf2_span n (set A)" using assms(1,4) by (auto simp: row_equiv_def)
  with assms(2,3) show ?thesis by (rule span_dot)
qed

lemma solve_unfold:
  assumes "bitmat r n A0" and "0 < r" and "0 < n"
    and "parse_rows ms = Inr A0"
  shows "solve_for_s_from_measurements n ms =
           (case forward_elimination n A0 of
              Inl e \<Rightarrow> Inl e
            | Inr st \<Rightarrow> (case nullspace_vector n st of Inl e \<Rightarrow> Inl e | Inr s \<Rightarrow> Inr (Some s)))"
proof -
  have "length A0 \<noteq> 0" using assms(1,2) by (simp add: bitmat_def)
  moreover have "ncols A0 \<noteq> 0" using ncols_bitmat [OF assms(1,2)] assms(3) by simp
  ultimately show ?thesis
    using assms(4) np_array_bitmat [OF assms(1)]
    by (simp add: solve_for_s_from_measurements_def)
qed

text \<open>
  C2. On a non-empty list of rows of \<open>n\<close> bits each (\<open>n\<close> positive),
  \<open>solve_for_s_from_measurements\<close> returns 0 exactly when the forward elimination finds
  \<open>n\<close> pivots; otherwise it returns an integer \<open>s\<close> with \<open>0 < s < 2 ^ n\<close> whose bit vector
  is orthogonal over GF(2) to every input row.
\<close>

theorem solve_for_s_from_measurements_nullspace:
  assumes "ms \<noteq> []" and "\<forall>m\<in>set ms. bitstring n m" and "0 < n"
  shows "\<exists>A rank pivot_cols s.
           forward_elimination n (map (map digit_val) ms) = Inr (A, rank, pivot_cols)
           \<and> solve_for_s_from_measurements n ms = Inr (Some s)
           \<and> (s = 0 \<longleftrightarrow> rank = n)
           \<and> (rank \<noteq> n \<longrightarrow> 0 < s \<and> s < 2 ^ n
                 \<and> (\<forall>m\<in>set ms. gf2_dot (map digit_val m) (int_to_bits s n) = 0))"
proof -
  let ?A0 = "map (map digit_val) ms"
  let ?r = "length ms"
  have r: "0 < ?r" using assms(1) by simp
  have bm0: "bitmat ?r n ?A0" using assms(2) by (rule bitmat_parsed)
  have pr: "parse_rows ms = Inr ?A0" using assms(2) by (rule parse_rows_bitstrings)
  from forward_elimination_ok [OF bm0 r]
  obtain A rank pivs where fe: "forward_elimination n ?A0 = Inr (A, rank, pivs)"
    and ech: "echelon ?r n n (A, rank, pivs)" and re: "row_equiv n ?A0 A" and rn: "rank \<le> n"
    by blast
  have su: "solve_for_s_from_measurements n ms =
          (case nullspace_vector n (A, rank, pivs) of Inl e \<Rightarrow> Inl e | Inr s \<Rightarrow> Inr (Some s))"
    using solve_unfold [OF bm0 r assms(3) pr] fe by simp
  show ?thesis
  proof (cases "rank = n")
    case True
    have "solve_for_s_from_measurements n ms = Inr (Some 0)"
      unfolding su True by (simp add: nullspace_vector_full)
    with fe True show ?thesis by blast
  next
    case False
    then have lt: "rank < n" using rn by simp
    from nullspace_vector_ok [OF ech lt]
    obtain f sb where f: "f < n" "f \<notin> set pivs"
      and nv: "nullspace_vector n (A, rank, pivs) = Inr (bits_to_int sb)"
      and sb: "bitvec n sb" and orth: "\<forall>row\<in>set A. gf2_dot row sb = 0"
      and fc: "\<forall>j<n. j \<notin> set pivs \<longrightarrow> sb ! j = (if j = f then 1 else 0)"
      by blast
    let ?s = "bits_to_int sb"
    have sol: "solve_for_s_from_measurements n ms = Inr (Some ?s)"
      unfolding su nv by simp
    have "sb ! f = 1" using fc f by simp
    then have "sb \<noteq> replicate n 0" using f(1) by auto
    then have nz: "?s \<noteq> 0" using bits_to_int_zero_iff [OF sb] by simp
    have bnd: "0 \<le> ?s" "?s < 2 ^ n" using bits_to_int_bounds [OF sb] by auto
    have bk: "int_to_bits ?s n = sb" using sb by (rule int_to_bits_bits_to_int)
    have lA: "\<forall>v\<in>set A. length v = n"
      using ech by (intro bitmat_len [of ?r]) (simp add: echelon_def)
    have "\<forall>m\<in>set ms. gf2_dot (map digit_val m) (int_to_bits ?s n) = 0"
      unfolding bk using row_equiv_dot [OF re lA orth] by simp
    with fe sol nz bnd False show ?thesis by force
  qed
qed

theorem solve_for_s_from_measurements_nullspace_witness:
  "solve_for_s_from_measurements 4 [''0010'', ''0111'', ''1001''] = Inr (Some 13)
   \<and> gf2_dot (map digit_val ''0111'') (int_to_bits 13 4) = 0"
proof -
  have h1: "[''0010'', ''0111'', ''1001''] \<noteq> []" by simp
  have h2: "\<forall>m\<in>set [''0010'', ''0111'', ''1001'']. bitstring 4 m" by code_simp
  have h3: "(0::nat) < 4" by simp
  have ev: "solve_for_s_from_measurements 4 [''0010'', ''0111'', ''1001''] = Inr (Some 13)"
    by code_simp
  have fe: "forward_elimination 4 (map (map digit_val) [''0010'', ''0111'', ''1001''])
              = Inr ([[1,0,0,1],[0,1,1,1],[0,0,1,0]], 3, [0,1,2])"
    by code_simp
  from solve_for_s_from_measurements_nullspace [OF h1 h2 h3]
  obtain A rank pivot_cols s where
    a: "forward_elimination 4 (map (map digit_val) [''0010'', ''0111'', ''1001''])
          = Inr (A, rank, pivot_cols)"
    and b: "solve_for_s_from_measurements 4 [''0010'', ''0111'', ''1001''] = Inr (Some s)"
    and c: "rank \<noteq> 4 \<longrightarrow> 0 < s \<and> s < 2 ^ 4
                 \<and> (\<forall>m\<in>set [''0010'', ''0111'', ''1001''].
                        gf2_dot (map digit_val m) (int_to_bits s 4) = 0)"
    by blast
  from a fe have "rank = 3" by simp
  moreover from b ev have "s = 13" by simp
  ultimately have "\<forall>m\<in>set [''0010'', ''0111'', ''1001''].
                        gf2_dot (map digit_val m) (int_to_bits 13 4) = 0"
    using c by simp
  then have "gf2_dot (map digit_val ''0111'') (int_to_bits 13 4) = 0"
    by (rule bspec) simp
  with ev show ?thesis by (rule_tac conjI)
qed

section \<open>The round trip\<close>

text \<open>
  A vector orthogonal to the rows of an echelon form is determined by its coordinates
  in the free columns; with \<open>n - 1\<close> pivots there is one free column and one non-zero
  solution.
\<close>

lemma xor_bit_cancel: "(a::int) XOR d = 0 \<Longrightarrow> b XOR d = 0 \<Longrightarrow> a = b"
  by (metis xor.assoc xor_self_eq xor.right_neutral)

lemma and_one_bit: "b = 0 \<or> b = 1 \<Longrightarrow> (1::int) AND b = b"
  by auto

lemma echelon_determined:
  assumes ech: "echelon r n n (A, rank, pivs)"
    and t: "bitvec n t" and t': "bitvec n t'"
    and o: "\<forall>i<rank. gf2_dot (A ! i) t = 0" and o': "\<forall>i<rank. gf2_dot (A ! i) t' = 0"
    and fc: "\<forall>j<n. j \<notin> set pivs \<longrightarrow> t ! j = t' ! j"
  shows "t = t'"
proof -
  from ech have bm: "bitmat r n A" and rr: "rank \<le> r"
    and lp: "length pivs = rank" and pn: "\<forall>p\<in>set pivs. p < n"
    and lead: "\<And>i. i < rank \<Longrightarrow> A ! i ! (pivs ! i) = 1 \<and> (\<forall>j<pivs ! i. A ! i ! j = 0)"
    unfolding echelon_def prod.case by blast+
  have lt: "length t = n" and lt': "length t' = n" using t t' by (simp_all add: bitvec_def)
  have agree: "\<forall>j. k \<le> j \<and> j < n \<longrightarrow> t ! j = t' ! j" if "k \<le> n" for k
    using that
  proof (induction "n - k" arbitrary: k)
    case 0
    then show ?case by simp
  next
    case (Suc d)
    then have kn: "k < n" by simp
    have ih: "\<forall>j. Suc k \<le> j \<and> j < n \<longrightarrow> t ! j = t' ! j"
      using Suc.hyps(2) kn by (intro Suc.hyps(1)) auto
    have dr: "drop (Suc k) t = drop (Suc k) t'"
      using ih lt lt' by (intro nth_equalityI) auto
    have "t ! k = t' ! k"
    proof (cases "k \<in> set pivs")
      case False
      then show ?thesis using fc kn by simp
    next
      case True
      then obtain i where i: "i < rank" "pivs ! i = k"
        using lp by (auto simp: in_set_conv_nth)
      let ?row = "A ! i"
      have row: "bitvec n ?row" using bm i(1) rr by (intro bitmat_nth [of r]) auto
      then have lr: "length ?row = n" by (simp add: bitvec_def)
      have one: "?row ! k = 1" and zero: "\<forall>j<k. ?row ! j = 0"
        using lead [OF i(1)] i(2) by auto
      have ex: "gf2_dot ?row u = u ! k XOR gf2_dot (drop (Suc k) ?row) (drop (Suc k) u)"
        if u: "bitvec n u" for u
      proof -
        have lu: "length u = n" using u by (simp add: bitvec_def)
        have "gf2_dot ?row u = gf2_dot (drop k ?row) (drop k u)"
          using zero kn lr lu by (intro gf2_dot_drop) auto
        also have "\<dots> = (?row ! k AND u ! k) XOR gf2_dot (drop (Suc k) ?row) (drop (Suc k) u)"
          using kn lr lu by (intro gf2_dot_drop_Suc) auto
        also have "?row ! k AND u ! k = u ! k"
          unfolding one using bitvec_nth [OF u kn] by (rule and_one_bit)
        finally show ?thesis .
      qed
      have "t ! k XOR gf2_dot (drop (Suc k) ?row) (drop (Suc k) t) = 0"
        using ex [OF t] o i(1) by simp
      moreover have "t' ! k XOR gf2_dot (drop (Suc k) ?row) (drop (Suc k) t) = 0"
        using ex [OF t'] o' i(1) unfolding dr by simp
      ultimately show ?thesis by (rule xor_bit_cancel)
    qed
    with ih show ?case by (metis Suc_leI le_neq_implies_less)
  qed
  from agree [of 0] have "\<forall>j<n. t ! j = t' ! j" by simp
  then show ?thesis using lt lt' by (intro nth_equalityI) auto
qed

lemma zero_row_eq:
  assumes ech: "echelon r n n (A, rank, pivs)" and "rank \<le> i" and "i < r"
  shows "A ! i = replicate n 0"
proof -
  from ech have bm: "bitmat r n A"
    and z: "\<forall>i. rank \<le> i \<and> i < r \<longrightarrow> (\<forall>j<n. A ! i ! j = 0)"
    unfolding echelon_def prod.case by blast+
  have "length (A ! i) = n" using bitmat_nth [OF bm assms(3)] by (simp add: bitvec_def)
  then show ?thesis using z assms(2,3) by (intro nth_equalityI) auto
qed

lemma rank_ge_independent:
  assumes ech: "echelon r n n (A, rank, pivs)" and re: "row_equiv n A0 A"
    and ind: "gf2_independent n vs" and sub: "set vs \<subseteq> set A0"
    and len0: "\<forall>v\<in>set A0. length v = n"
  shows "length vs \<le> rank"
proof -
  from ech have bm: "bitmat r n A" and rr: "rank \<le> r"
    unfolding echelon_def prod.case by blast+
  have lenA: "length A = r" using bm by (simp add: bitmat_def)
  have lA: "\<forall>v\<in>set A. length v = n" using bm by (rule bitmat_len)
  let ?T = "set (take rank A)"
  have lT: "\<forall>v\<in>?T. length v = n" using lA by (meson in_set_takeD)
  have lvs: "\<forall>v\<in>set vs. length v = n" using sub len0 by auto
  have "A ! i \<in> gf2_span n ?T" if "i < r" for i
  proof (cases "i < rank")
    case True
    then have "A ! i \<in> ?T" using lenA that by (auto simp: in_set_conv_nth)
    then show ?thesis using lT by (intro span_gen) auto
  next
    case False
    then have "A ! i = replicate n 0" using zero_row_eq [OF ech _ that] by simp
    then show ?thesis by (simp add: span_zero)
  qed
  then have AT: "set A \<subseteq> gf2_span n ?T" using lenA by (auto simp: in_set_conv_nth)
  have "set A0 \<subseteq> gf2_span n (set A)" using re by (simp add: row_equiv_def)
  then have "set A0 \<subseteq> gf2_span n ?T"
    using span_subset [OF lT AT] by blast
  then have "set vs \<subseteq> gf2_span n ?T" using sub by blast
  then have incl: "gf2_span n (set vs) \<subseteq> gf2_span n ?T"
    using span_subset [OF lT] by blast
  have fin: "finite (gf2_span n ?T)" and cT: "card (gf2_span n ?T) \<le> 2 ^ card ?T"
    using span_card_le [of ?T n] lT by auto
  have "(2::nat) ^ length vs = card (gf2_span n (set vs))"
    using independent_span_card [OF ind lvs] by simp
  also have "\<dots> \<le> card (gf2_span n ?T)" using incl fin by (rule card_mono [rotated])
  also have "\<dots> \<le> 2 ^ card ?T" by (rule cT)
  also have "\<dots> \<le> 2 ^ rank"
    using card_length [of "take rank A"] by (intro power_increasing) auto
  finally show ?thesis by simp
qed

lemma pivs_cover:
  assumes ech: "echelon r n n (A, rank, pivs)"
  shows "card ({..<n} - set pivs) = n - rank" and "set pivs \<subseteq> {..<n}"
proof -
  from ech have lp: "length pivs = rank" and so: "sorted_wrt (<) pivs"
    and pn: "\<forall>p\<in>set pivs. p < n"
    unfolding echelon_def prod.case by blast+
  show sub: "set pivs \<subseteq> {..<n}" using pn by auto
  have "card (set pivs) = rank" using sorted_less_distinct [OF so] lp distinct_card by fastforce
  then show "card ({..<n} - set pivs) = n - rank"
    using sub by (simp add: card_Diff_subset)
qed

lemma singleton_subseq: "v \<in> set vs \<Longrightarrow> [v] \<in> set (subseqs vs)"
proof (induction vs)
  case Nil
  then show ?case by simp
next
  case (Cons a vs)
  have "[] \<in> set (subseqs vs)" by (induction vs) (auto simp: Let_def)
  then show ?case using Cons by (auto simp: Let_def)
qed

lemma independent_nonzero:
  assumes "gf2_independent n vs" and "v \<in> set vs"
  shows "v \<noteq> replicate n 0"
proof
  assume z: "v = replicate n 0"
  have "[v] \<in> set (subseqs vs)" using assms(2) by (rule singleton_subseq)
  moreover have "xor_all n [v] = replicate n 0"
    unfolding z by (simp add: xor_row_zero_left)
  ultimately show False using assms(1) unfolding gf2_independent_def by blast
qed

lemma check_linear_independence_ok:
  assumes wf: "\<forall>m\<in>set U. bitstring n m" and ne: "U \<noteq> []"
  shows "\<exists>A' rk pivs'.
           forward_loop (length U) [0..<min n (length U)] (map (map digit_val) U, 0, [])
             = Inr (A', rk, pivs')
           \<and> check_linear_independence U n = Inr (int n - 1 \<le> int rk, rk)"
proof -
  let ?A0 = "map (map digit_val) U"
  let ?r = "length U"
  have r: "0 < ?r" using ne by simp
  have bm0: "bitmat ?r n ?A0" using wf by (rule bitmat_parsed)
  have pr: "parse_rows U = Inr ?A0" using wf by (rule parse_rows_bitstrings)
  have na: "np_array ?A0 = Inr ?A0" using bm0 by (rule np_array_bitmat)
  from forward_loop_ok [OF echelon_init [OF bm0] r le0 min.cobounded1]
  obtain A' rk pivs' where f: "forward_loop ?r [0..<min n ?r] (?A0, 0, []) = Inr (A', rk, pivs')"
    by blast
  have "rank_loop ?r [0..<min n ?r] (?A0, 0) = Inr (A', rk)"
    unfolding rank_loop_forward [of ?r "[0..<min n ?r]" ?A0 0 "[]"] f by simp
  then have "check_linear_independence U n = Inr (int n - 1 \<le> int rk, rk)"
    using ne pr na by (simp add: check_linear_independence_def)
  with f show ?thesis by blast
qed

lemma solver_recovers:
  assumes n2: "2 \<le> n" and s: "0 < s" "s < 2 ^ n"
    and wf: "\<forall>m\<in>set U. bitstring n m" and ne: "U \<noteq> []"
    and orth: "\<forall>m\<in>set U. gf2_dot (map digit_val m) (int_to_bits s n) = 0"
    and ind: "gf2_independent n vs" and lvs: "length vs = n - 1"
    and sub: "set vs \<subseteq> set (map (map digit_val) U)"
  shows "\<exists>A pivs. forward_elimination n (map (map digit_val) U) = Inr (A, n - 1, pivs)
           \<and> solve_for_s_from_measurements n U = Inr (Some s)"
proof -
  let ?A0 = "map (map digit_val) U"
  let ?r = "length U"
  let ?t = "int_to_bits s n"
  have r: "0 < ?r" using ne by simp
  have n0: "0 < n" using n2 by simp
  have bm0: "bitmat ?r n ?A0" using wf by (rule bitmat_parsed)
  have l0: "\<forall>v\<in>set ?A0. length v = n" using bm0 by (rule bitmat_len)
  have pr: "parse_rows U = Inr ?A0" using wf by (rule parse_rows_bitstrings)
  from forward_elimination_ok [OF bm0 r]
  obtain A rank pivs where fe: "forward_elimination n ?A0 = Inr (A, rank, pivs)"
    and ech: "echelon ?r n n (A, rank, pivs)" and re: "row_equiv n ?A0 A" and rn: "rank \<le> n"
    by blast
  have su: "solve_for_s_from_measurements n U =
          (case nullspace_vector n (A, rank, pivs) of Inl e \<Rightarrow> Inl e | Inr s \<Rightarrow> Inr (Some s))"
    using solve_unfold [OF bm0 r n0 pr] fe by simp
  from ech have bm: "bitmat ?r n A" and rr: "rank \<le> ?r"
    unfolding echelon_def prod.case by blast+
  have lenA: "length A = ?r" using bm by (simp add: bitmat_def)
  have t: "bitvec n ?t" by (rule bitvec_int_to_bits)
  have ts: "bits_to_int ?t = s" using s by (intro bits_to_int_int_to_bits) auto
  have tnz: "?t \<noteq> replicate n 0"
    using bits_to_int_zero_iff [OF t] ts s(1) by auto
  have z: "bitvec n (replicate n 0)" by (rule bitvec_replicate)
  have o0: "\<forall>row\<in>set ?A0. gf2_dot row ?t = 0" using orth by simp
  have "set A \<subseteq> gf2_span n (set ?A0)" using re by (simp add: row_equiv_def)
  then have oA: "\<forall>row\<in>set A. gf2_dot row ?t = 0"
    using span_dot [OF l0 o0] by blast
  have mem: "A ! i \<in> set A" if "i < rank" for i
    using that rr lenA by simp
  have ot: "\<forall>i<rank. gf2_dot (A ! i) ?t = 0"
    using oA mem by blast
  have oz: "\<forall>i<rank. gf2_dot (A ! i) (replicate n 0) = 0"
    by (simp add: gf2_dot_zero_right)
  have ge: "n - 1 \<le> rank"
    using rank_ge_independent [OF ech re ind sub l0] lvs by simp
  have ne_n: "rank \<noteq> n"
  proof
    assume "rank = n"
    then have "card ({..<n} - set pivs) = 0" using pivs_cover(1) [OF ech] by simp
    then have "\<forall>j<n. j \<in> set pivs"
      by (metis Diff_iff card_0_eq empty_iff finite_Diff finite_lessThan lessThan_iff)
    then have "\<forall>j<n. j \<notin> set pivs \<longrightarrow> ?t ! j = replicate n 0 ! j" by blast
    from echelon_determined [OF ech t z ot oz this] tnz show False by simp
  qed
  then have rk: "rank = n - 1" using ge rn by simp
  then have lt: "rank < n" using n0 by simp
  from nullspace_vector_ok [OF ech lt]
  obtain f sb where f: "f < n" "f \<notin> set pivs"
    and nv: "nullspace_vector n (A, rank, pivs) = Inr (bits_to_int sb)"
    and sb: "bitvec n sb" and osb: "\<forall>row\<in>set A. gf2_dot row sb = 0"
    and fc: "\<forall>j<n. j \<notin> set pivs \<longrightarrow> sb ! j = (if j = f then 1 else 0)"
    by blast
  have c1: "card ({..<n} - set pivs) = 1" using pivs_cover(1) [OF ech] rk n0 by simp
  have only: "j = f" if "j < n" "j \<notin> set pivs" for j
  proof -
    have "f \<in> {..<n} - set pivs" "j \<in> {..<n} - set pivs" using f that by auto
    with c1 show ?thesis by (metis card_1_singletonE singletonD)
  qed
  have tf: "?t ! f = 1"
  proof (rule ccontr)
    assume "?t ! f \<noteq> 1"
    then have "?t ! f = 0" using bitvec_nth [OF t f(1)] by simp
    then have "\<forall>j<n. j \<notin> set pivs \<longrightarrow> ?t ! j = replicate n 0 ! j"
      using only by auto
    from echelon_determined [OF ech t z ot oz this] tnz show False by simp
  qed
  have osb': "\<forall>i<rank. gf2_dot (A ! i) sb = 0"
    using osb mem by blast
  have "\<forall>j<n. j \<notin> set pivs \<longrightarrow> ?t ! j = sb ! j"
    using fc tf only by auto
  from echelon_determined [OF ech t sb ot osb' this] have "sb = ?t" by simp
  then have "solve_for_s_from_measurements n U = Inr (Some s)"
    unfolding su nv using ts by simp
  with fe rk show ?thesis by blast
qed

lemma digit_val_zeros: "map digit_val (replicate n (CHR ''0'')) = replicate n 0"
  by (simp add: digit_val_01)

text \<open>
  C1, as the code has it. Let \<open>n \<ge> 2\<close>, let \<open>s\<close> be a non-zero hidden vector below
  \<open>2 ^ n\<close>, and let the list \<open>L\<close> consist of \<open>n - 1\<close> linearly independent strings of
  \<open>n\<close> bits, each orthogonal to \<open>s\<close>, with any number of duplicates of them and of
  all-zero strings. When the rank check of the validator passes, and it does when \<open>L\<close>
  holds at least \<open>n\<close> non-zero entries, \<open>solve_for_s_enhanced\<close> returns \<open>s\<close> with the
  status Success.
\<close>

theorem round_trip_when_check_passes:
  assumes n2: "2 \<le> n" and s: "0 < s" "s < 2 ^ n"
    and lvs: "length vs = n - 1"
    and wfo: "\<forall>v\<in>set vs. bitstring n v \<and> gf2_dot (map digit_val v) (int_to_bits s n) = 0"
    and ind: "gf2_independent n (map (map digit_val) vs)"
    and sub1: "set vs \<subseteq> set L" and sub2: "set L \<subseteq> set vs \<union> {replicate n (CHR ''0'')}"
    and chk: "n \<le> length (useful_measurements n L)
              \<or> (\<exists>ok rk. check_linear_independence (useful_measurements n L) n = Inr (ok, rk)
                    \<and> int n - 1 \<le> int rk)"
  shows "solve_for_s_enhanced n L = Inr (Some s, Success)"
proof -
  let ?U = "useful_measurements n L"
  let ?A0 = "map (map digit_val) ?U"
  have nz: "v \<noteq> replicate n (CHR ''0'')" if "v \<in> set vs" for v
  proof
    assume "v = replicate n (CHR ''0'')"
    then have "map digit_val v = replicate n 0" by (simp only: digit_val_zeros)
    moreover have "map digit_val v \<in> set (map (map digit_val) vs)" using that by simp
    ultimately show False using independent_nonzero [OF ind] by metis
  qed
  have setU: "set ?U = set vs"
    using sub1 sub2 nz by (auto simp: useful_measurements_def)
  have "vs \<noteq> []" using lvs n2 by auto
  then have ne: "?U \<noteq> []" and neL: "L \<noteq> []" using setU sub1 by auto
  have wf: "\<forall>m\<in>set ?U. bitstring n m"
    and orth: "\<forall>m\<in>set ?U. gf2_dot (map digit_val m) (int_to_bits s n) = 0"
    using wfo unfolding setU by auto
  have sub: "set (map (map digit_val) vs) \<subseteq> set ?A0" using setU by simp
  have lvs': "length (map (map digit_val) vs) = n - 1" using lvs by simp
  from solver_recovers [OF n2 s wf ne orth ind lvs' sub]
  obtain A pivs where fe: "forward_elimination n ?A0 = Inr (A, n - 1, pivs)"
    and sol: "solve_for_s_from_measurements n ?U = Inr (Some s)"
    by blast
  from check_linear_independence_ok [OF wf ne]
  obtain A' rk pivs' where
    fl: "forward_loop (length ?U) [0..<min n (length ?U)] (?A0, 0, []) = Inr (A', rk, pivs')"
    and ck: "check_linear_independence ?U n = Inr (int n - 1 \<le> int rk, rk)"
    by blast
  have pass: "int n - 1 \<le> int rk"
    using chk
  proof
    assume "n \<le> length ?U"
    then have "min n (length ?U) = n" by simp
    then have "forward_elimination n ?A0 = Inr (A', rk, pivs')"
      using fl by (simp add: forward_elimination_def)
    with fe have "rk = n - 1" by simp
    then show ?thesis by simp
  next
    assume "\<exists>ok rk. check_linear_independence ?U n = Inr (ok, rk) \<and> int n - 1 \<le> int rk"
    then show ?thesis using ck by auto
  qed
  show ?thesis
    using neL ne ck pass sol by (simp add: solve_for_s_enhanced_def)
qed

theorem round_trip_when_check_passes_witness:
  "gf2_independent 4 (map (map digit_val) [''0010'', ''0111'', ''1001''])
   \<and> 4 \<le> length (useful_measurements 4 [''0010'', ''0000'', ''0111'', ''1001'', ''0111''])
   \<and> solve_for_s_enhanced 4 [''0010'', ''0000'', ''0111'', ''1001'', ''0111'']
        = Inr (Some 13, Success)"
proof -
  have h1: "(2::nat) \<le> 4" and h2: "(0::int) < 13" and h3: "(13::int) < 2 ^ 4" by simp_all
  have h4: "length [''0010'', ''0111'', ''1001''] = 4 - 1" by simp
  have h5: "\<forall>v\<in>set [''0010'', ''0111'', ''1001''].
              bitstring 4 v \<and> gf2_dot (map digit_val v) (int_to_bits 13 4) = 0"
    by code_simp
  have h6: "gf2_independent 4 (map (map digit_val) [''0010'', ''0111'', ''1001''])"
    by code_simp
  have h7: "set [''0010'', ''0111'', ''1001'']
              \<subseteq> set [''0010'', ''0000'', ''0111'', ''1001'', ''0111'']"
    by code_simp
  have h8: "set [''0010'', ''0000'', ''0111'', ''1001'', ''0111'']
              \<subseteq> set [''0010'', ''0111'', ''1001''] \<union> {replicate 4 (CHR ''0'')}"
    by code_simp
  have h9: "4 \<le> length (useful_measurements 4 [''0010'', ''0000'', ''0111'', ''1001'', ''0111''])"
    by code_simp
  from round_trip_when_check_passes [OF h1 h2 h3 h4 h5 h6 h7 h8 disjI1 [OF h9]] h6 h9
  show ?thesis by blast
qed

text \<open>
  C1 as stated fails. For \<open>n = 2\<close> and the hidden vector \<open>s = 0\<close> the single vector \<open>10\<close>
  is independent and orthogonal to \<open>s\<close>, and the value returned is 1. For \<open>n = 2\<close> and
  \<open>s = 2\<close>, that is \<open>10\<close>, the single vector \<open>01\<close> is independent and orthogonal to \<open>s\<close>, and
  the validator reports rank 0 of the 1 needed.
\<close>

theorem round_trip_fails:
  "gf2_independent 2 (map (map digit_val) [''10''])
   \<and> bitstring 2 ''10''
   \<and> gf2_dot (map digit_val ''10'') (int_to_bits 0 2) = 0
   \<and> solve_for_s_enhanced 2 [''10''] = Inr (Some 1, Success)
   \<and> gf2_independent 2 (map (map digit_val) [''01''])
   \<and> bitstring 2 ''01''
   \<and> gf2_dot (map digit_val ''01'') (int_to_bits 2 2) = 0
   \<and> solve_for_s_enhanced 2 [''01''] = Inr (None, Insufficient 0 1)"
  by code_simp

end
